theory Spec2Isabelle
  imports Main "HOL-Library.Char_ord" "HOL-Library.List_Lexorder"
    "HOL-Library.Option_ord" "HOL-Library.Product_Lexorder"
begin

chapter \<open>The model\<close>

section \<open>Errors raised by the code\<close>

text \<open>
  Every \<^verbatim>\<open>raise\<close> of the two modules, and every exception of the interpreter that the
  modelled statements can throw, is a value of this type. A function that can raise returns
  \<open>py_error + 'a\<close>, with \<open>Inl\<close> for the exception.
\<close>

datatype py_error =
    KeyError
  | ValueError
  | IndexError
  | TypeError
  | ImproperlyConfigured
  | ValidationError

section \<open>The tenant context and the path prefix (\<^verbatim>\<open>urlresolvers.py\<close>)\<close>

text \<open>
  \<^verbatim>\<open>get_current_site()\<close> lives in \<^verbatim>\<open>thread_locals.py\<close>; the resolver only reads
  it. Its result is a parameter of the model: \<open>None\<close> when no tenant is active, otherwise a
  handle whose \<^verbatim>\<open>path_prefix\<close> attribute is \<^verbatim>\<open>None\<close> or a string.
\<close>

record site_handle =
  path_prefix :: "string option"

text \<open>Python truthiness of an attribute that is \<^verbatim>\<open>None\<close> or a string.\<close>

fun truthy :: "string option \<Rightarrow> bool" where
  "truthy None = False"
| "truthy (Some s) = (s \<noteq> [])"

text \<open>
  \<^verbatim>\<open>RegexURLResolver._get_path_prefix\<close>:
  \<^verbatim>\<open>
    path_prefix = "_"
    current_site = get_current_site()
    if current_site and current_site.path_prefix:
        path_prefix = current_site.path_prefix
    return path_prefix
  \<close>
\<close>

definition get_path_prefix :: "site_handle option \<Rightarrow> string" where
  "get_path_prefix current_site =
     (case current_site of
        None \<Rightarrow> ''_''
      | Some site \<Rightarrow>
          (if truthy (path_prefix site) then the (path_prefix site) else ''_''))"

text \<open>
  A compiled regular expression is kept as its source text, the \<^verbatim>\<open>.pattern\<close> attribute
  that \<^verbatim>\<open>_populate\<close> reads.
\<close>

datatype re = ReCompile (pattern: string)

text \<open>
  \<^verbatim>\<open>SiteRegexURLResolver.regex\<close>:
  \<^verbatim>\<open>
    path_prefix = self._get_path_prefix()
    if path_prefix != '_':
        return re.compile('^%s/' % path_prefix, re.UNICODE)
    return re.compile('^', re.UNICODE)
  \<close>
\<close>

definition site_regex :: "site_handle option \<Rightarrow> re" where
  "site_regex current_site =
     (let path_prefix = get_path_prefix current_site in
      if path_prefix \<noteq> ''_'' then ReCompile (''^'' @ path_prefix @ ''/'')
      else ReCompile ''^'')"

text \<open>
  The two statements of \<^verbatim>\<open>_populate\<close> that remove the leading anchor:
  \<^verbatim>\<open>if p_pattern.startswith('^'): p_pattern = p_pattern[1:]\<close>.
\<close>

fun strip_anchor :: "string \<Rightarrow> string" where
  "strip_anchor [] = []"
| "strip_anchor (c # cs) = (if c = CHR ''^'' then cs else c # cs)"

section \<open>Route registration: \<^verbatim>\<open>url_sites\<close>\<close>

text \<open>
  Python values that can reach \<^verbatim>\<open>url_sites\<close>. A callable is a function or a class,
  named by its dotted path; lists and tuples are both \<open>PySeq\<close>, since the code tests
  \<^verbatim>\<open>isinstance(view, (list, tuple))\<close> only.
\<close>

datatype pyval =
    PyNone
  | PyStr string
  | PyInt int
  | PyCallable string
  | PyModule string
  | PySeq "pyval list"
  | PyDict "(string \<times> pyval) list"

text \<open>Truth value of \<^verbatim>\<open>not view\<close>, \<^verbatim>\<open>if prefix\<close>; functions, classes and modules are true.\<close>

fun py_bool :: "pyval \<Rightarrow> bool" where
  "py_bool PyNone = False"
| "py_bool (PyStr s) = (s \<noteq> [])"
| "py_bool (PyInt i) = (i \<noteq> 0)"
| "py_bool (PyCallable f) = True"
| "py_bool (PyModule m) = True"
| "py_bool (PySeq xs) = (xs \<noteq> [])"
| "py_bool (PyDict kvs) = (kvs \<noteq> [])"

fun callable :: "pyval \<Rightarrow> bool" where
  "callable (PyCallable f) = True"
| "callable v = False"

fun is_list_or_tuple :: "pyval \<Rightarrow> bool" where
  "is_list_or_tuple (PySeq xs) = True"
| "is_list_or_tuple v = False"

text \<open>
  The first argument of the node constructors: a \<^verbatim>\<open>RegexPattern(regex, name=, is_endpoint=)\<close>
  object in the first definition, the regex string itself in the second.
\<close>

datatype regex_arg =
    RegexPattern string pyval bool
  | RegexStr string

text \<open>
  What \<^verbatim>\<open>url_sites\<close> returns: \<^verbatim>\<open>RegexURLResolver(regex, urlconf, kwargs, app_name, namespace)\<close>
  or \<^verbatim>\<open>DjangoRegexURLPattern(regex, view, kwargs, name)\<close>. Both constructors only
  store their arguments.
\<close>

datatype route_node =
    ResolverNode regex_arg pyval pyval pyval pyval
  | PatternNode regex_arg pyval pyval pyval

text \<open>
  The definition of the \<^verbatim>\<open>try\<close> branch (lines 173-195), in force when
  \<^verbatim>\<open>django.urls.resolvers.RegexPattern\<close> can be imported. The tuple assignment
  \<^verbatim>\<open>urlconf_module, app_name, namespace = view\<close> raises \<^verbatim>\<open>ValueError\<close> unless
  \<^verbatim>\<open>view\<close> has exactly three elements.
\<close>

definition url_sites_try ::
  "string \<Rightarrow> pyval \<Rightarrow> pyval \<Rightarrow> pyval \<Rightarrow> pyval \<Rightarrow> py_error + route_node" where
  "url_sites_try regex view kwargs name prefix =
     (if \<not> py_bool view then Inl ImproperlyConfigured
      else if is_list_or_tuple view then
        (case view of
           PySeq [urlconf_module, app_name, namespace] \<Rightarrow>
             Inr (ResolverNode (RegexPattern regex PyNone False)
                    urlconf_module kwargs app_name namespace)
         | _ \<Rightarrow> Inl ValueError)
      else if callable view then
        Inr (PatternNode (RegexPattern regex name True) view kwargs name)
      else Inl TypeError)"

text \<open>
  The definition of the \<^verbatim>\<open>except ImportError\<close> branch (lines 198-215), with the default
  \<^verbatim>\<open>pattern\<close> and \<^verbatim>\<open>resolver\<close> classes. \<^verbatim>\<open>view[0]\<close> raises \<^verbatim>\<open>IndexError\<close> on an empty
  sequence; \<^verbatim>\<open>resolver(regex, view[0], kwargs, *view[1:])\<close> takes at most
  \<^verbatim>\<open>app_name\<close> and \<^verbatim>\<open>namespace\<close> after \<^verbatim>\<open>kwargs\<close> (both default to \<^verbatim>\<open>None\<close>) and
  raises \<^verbatim>\<open>TypeError\<close> on more positional arguments.
\<close>

definition url_sites_except ::
  "string \<Rightarrow> pyval \<Rightarrow> pyval \<Rightarrow> pyval \<Rightarrow> pyval \<Rightarrow> py_error + route_node" where
  "url_sites_except regex view kwargs name prefix =
     (case view of
        PySeq xs \<Rightarrow>
          (case xs of
             [] \<Rightarrow> Inl IndexError
           | [u] \<Rightarrow> Inr (ResolverNode (RegexStr regex) u kwargs PyNone PyNone)
           | [u, a] \<Rightarrow> Inr (ResolverNode (RegexStr regex) u kwargs a PyNone)
           | [u, a, n] \<Rightarrow> Inr (ResolverNode (RegexStr regex) u kwargs a n)
           | _ \<Rightarrow> Inl TypeError)
      | PyStr s \<Rightarrow>
          (if s = [] then Inl ImproperlyConfigured
           else if py_bool prefix then
             (case prefix of
                PyStr p \<Rightarrow> Inr (PatternNode (RegexStr regex) (PyStr (p @ ''.'' @ s)) kwargs name)
              | _ \<Rightarrow> Inl TypeError)
           else Inr (PatternNode (RegexStr regex) view kwargs name))
      | _ \<Rightarrow> Inr (PatternNode (RegexStr regex) view kwargs name))"

text \<open>
  The module binds \<^verbatim>\<open>url_sites\<close> to the first definition when the import of
  \<^verbatim>\<open>RegexPattern\<close> succeeds and to the second when it raises \<^verbatim>\<open>ImportError\<close>.
\<close>

definition url_sites ::
  "bool \<Rightarrow> string \<Rightarrow> pyval \<Rightarrow> pyval \<Rightarrow> pyval \<Rightarrow> pyval \<Rightarrow> py_error + route_node" where
  "url_sites regex_pattern_importable regex view kwargs name prefix =
     (if regex_pattern_importable then url_sites_try regex view kwargs name prefix
      else url_sites_except regex view kwargs name prefix)"

section \<open>The site registry (\<^verbatim>\<open>models.py\<close>)\<close>

subsection \<open>Regular expressions\<close>

text \<open>
  The validator of \<^verbatim>\<open>Site.domain\<close> is a regular expression. Its syntax tree is kept as
  data; \<open>rx_matches\<close> says which strings an expression matches in full, and
  \<open>re_search\<close> computes, by derivatives, what \<^verbatim>\<open>regex.search\<close> decides: whether some
  substring matches.
\<close>

datatype rx =
    Zero
  | One
  | Chr char
  | Range char char
  | Alt rx rx
  | Seq rx rx
  | Star rx

definition Plus :: "rx \<Rightarrow> rx" where
  "Plus r = Seq r (Star r)"

inductive rx_matches :: "rx \<Rightarrow> string \<Rightarrow> bool" where
  m_One: "rx_matches One []"
| m_Chr: "rx_matches (Chr c) [c]"
| m_Range: "lo \<le> c \<Longrightarrow> c \<le> hi \<Longrightarrow> rx_matches (Range lo hi) [c]"
| m_AltL: "rx_matches r w \<Longrightarrow> rx_matches (Alt r s) w"
| m_AltR: "rx_matches s w \<Longrightarrow> rx_matches (Alt r s) w"
| m_Seq: "rx_matches r u \<Longrightarrow> rx_matches s v \<Longrightarrow> rx_matches (Seq r s) (u @ v)"
| m_StarNil: "rx_matches (Star r) []"
| m_StarCons: "rx_matches r u \<Longrightarrow> rx_matches (Star r) v \<Longrightarrow> rx_matches (Star r) (u @ v)"

fun nullable :: "rx \<Rightarrow> bool" where
  "nullable Zero = False"
| "nullable One = True"
| "nullable (Chr c) = False"
| "nullable (Range lo hi) = False"
| "nullable (Alt r s) = (nullable r \<or> nullable s)"
| "nullable (Seq r s) = (nullable r \<and> nullable s)"
| "nullable (Star r) = True"

fun deriv :: "char \<Rightarrow> rx \<Rightarrow> rx" where
  "deriv c Zero = Zero"
| "deriv c One = Zero"
| "deriv c (Chr d) = (if c = d then One else Zero)"
| "deriv c (Range lo hi) = (if lo \<le> c \<and> c \<le> hi then One else Zero)"
| "deriv c (Alt r s) = Alt (deriv c r) (deriv c s)"
| "deriv c (Seq r s) =
     (if nullable r then Alt (Seq (deriv c r) s) (deriv c s) else Seq (deriv c r) s)"
| "deriv c (Star r) = Seq (deriv c r) (Star r)"

fun match_prefix :: "rx \<Rightarrow> string \<Rightarrow> bool" where
  "match_prefix r [] = nullable r"
| "match_prefix r (c # cs) = (nullable r \<or> match_prefix (deriv c r) cs)"

fun re_search :: "rx \<Rightarrow> string \<Rightarrow> bool" where
  "re_search r [] = nullable r"
| "re_search r (c # cs) = (match_prefix r (c # cs) \<or> re_search r cs)"

text \<open>
  The regex of the field, \<^verbatim>\<open>[a-z0-9][a-z0-9\-]*(\.[a-z0-9\-])+\<close>, piece by piece.
\<close>

definition alnum :: rx where
  "alnum = Alt (Range CHR ''a'' CHR ''z'') (Range CHR ''0'' CHR ''9'')"

definition alnum_hyphen :: rx where
  "alnum_hyphen = Alt alnum (Chr CHR ''-'')"

definition domain_regex :: rx where
  "domain_regex = Seq alnum (Seq (Star alnum_hyphen) (Plus (Seq (Chr CHR ''.'') alnum_hyphen)))"

definition is_alnum :: "char \<Rightarrow> bool" where
  "is_alnum c = ((CHR ''a'' \<le> c \<and> c \<le> CHR ''z'') \<or> (CHR ''0'' \<le> c \<and> c \<le> CHR ''9''))"

definition is_alnum_hyphen :: "char \<Rightarrow> bool" where
  "is_alnum_hyphen c = (is_alnum c \<or> c = CHR ''-'')"

subsection \<open>Validators of \<^verbatim>\<open>Site.domain\<close>\<close>

text \<open>\<^verbatim>\<open>string.whitespace\<close>: space, tab, line feed, carriage return, vertical tab, form feed.\<close>

definition string_whitespace :: string where
  "string_whitespace = [CHR '' '', CHR 0x09, CHR 0x0A, CHR 0x0D, CHR 0x0B, CHR 0x0C]"

text \<open>
  \<^verbatim>\<open>domain_name_validator\<close>:
  \<^verbatim>\<open>
    if not value:
        return
    checks = ((s in value) for s in string.whitespace)
    if any(checks):
        raise ValidationError(...)
  \<close>
  The value of a nullable field is \<^verbatim>\<open>None\<close> or a string.
\<close>

definition domain_name_validator :: "string option \<Rightarrow> py_error + unit" where
  "domain_name_validator val =
     (if \<not> truthy val then Inr ()
      else if list_ex (\<lambda>s. s \<in> set (the val)) string_whitespace then Inl ValidationError
      else Inr ())"

text \<open>
  Django's \<^verbatim>\<open>RegexValidator(regex, message, code)\<close> raises \<^verbatim>\<open>ValidationError\<close> when
  \<^verbatim>\<open>regex.search(value)\<close> finds nothing; the \<^verbatim>\<open>MaxLengthValidator\<close> that
  \<^verbatim>\<open>max_length=100\<close> adds raises it when the value is longer.
\<close>

definition regex_validator :: "rx \<Rightarrow> string \<Rightarrow> py_error + unit" where
  "regex_validator r val = (if re_search r val then Inr () else Inl ValidationError)"

definition max_length_validator :: "nat \<Rightarrow> string \<Rightarrow> py_error + unit" where
  "max_length_validator n val = (if n < length val then Inl ValidationError else Inr ())"

text \<open>
  The validators of the field \<^verbatim>\<open>domain\<close> (lines 57-61), and how a model field runs them:
  an empty value (\<^verbatim>\<open>None\<close>, \<^verbatim>\<open>''\<close>) is not validated; otherwise every validator is
  called and the field is invalid when one of them raised.
\<close>

definition domain_validators :: "(string \<Rightarrow> py_error + unit) list" where
  "domain_validators =
     [\<lambda>v. domain_name_validator (Some v),
      regex_validator domain_regex,
      max_length_validator 100]"

definition validate_domain :: "string option \<Rightarrow> py_error + unit" where
  "validate_domain val =
     (case val of
        None \<Rightarrow> Inr ()
      | Some v \<Rightarrow>
          (if v = [] then Inr ()
           else if list_all (\<lambda>validator. validator v = Inr ()) domain_validators then Inr ()
           else Inl ValidationError))"

text \<open>
  What the search of the field's regex accepts, stated on the string (lemma
  \<open>domain_regex_search_iff\<close>): somewhere in it stand a lowercase letter or digit, then
  letters, digits and hyphens, a dot, and one more letter, digit or hyphen. Anything may
  come before and after.
\<close>

definition has_label_dot_label :: "string \<Rightarrow> bool" where
  "has_label_dot_label s \<longleftrightarrow>
     (\<exists>u a l c w. s = u @ a # l @ CHR ''.'' # c # w
        \<and> is_alnum a \<and> list_all is_alnum_hyphen l \<and> is_alnum_hyphen c)"

text \<open>
  The wording of the specification, to compare the validators with: "lowercase
  alphanumeric segments, hyphens allowed mid-label, at least two dot-separated segments".
  \<open>split_dots\<close> cuts a value at its dots, a label is a non-empty segment of lowercase
  letters, digits and hyphens that neither starts nor ends with a hyphen, and a value is
  a name when it has at least two segments and all of them are labels.
\<close>

fun split_dots :: "string \<Rightarrow> string list" where
  "split_dots [] = [[]]"
| "split_dots (c # cs) =
     (if c = CHR ''.'' then [] # split_dots cs
      else (case split_dots cs of [] \<Rightarrow> [[c]] | l # ls \<Rightarrow> (c # l) # ls))"

definition dns_label :: "string \<Rightarrow> bool" where
  "dns_label l \<longleftrightarrow>
     l \<noteq> [] \<and> list_all is_alnum_hyphen l \<and> is_alnum (hd l) \<and> is_alnum (last l)"

definition dns_name :: "string \<Rightarrow> bool" where
  "dns_name v \<longleftrightarrow> 2 \<le> length (split_dots v) \<and> list_all dns_label (split_dots v)"

subsection \<open>Site records and the lookup by subdomain\<close>

text \<open>
  A row of the \<^verbatim>\<open>Site\<close> table, with the primary key and the columns the lookup reads;
  the other columns (database target, theme, base, account, flags, tag) take no part in
  it. \<^verbatim>\<open>domain\<close> is nullable and may be blank.
\<close>

record site =
  pk :: nat
  domain :: "string option"
  slug :: string
  subdomain :: string

text \<open>
  \<^verbatim>\<open>order_by('-domain', '-pk')\<close>: descending on the domain column, then on the primary
  key. How the column is ordered, its collation and the place of \<^verbatim>\<open>NULL\<close>, is decided
  by the database and not by the repository: it is the parameter \<open>rank\<close>, which sends a
  value of the column to its position in the database's ascending order.
\<close>

definition order_by_key :: "(string option \<Rightarrow> 'r) \<Rightarrow> site \<Rightarrow> 'r \<times> nat" where
  "order_by_key rank s = (rank (domain s), pk s)"

definition order_by_desc :: "(string option \<Rightarrow> 'r::linorder) \<Rightarrow> site list \<Rightarrow> site list" where
  "order_by_desc rank rows = rev (sort_key (order_by_key rank) rows)"

text \<open>
  Two databases: a binary collation with \<^verbatim>\<open>NULL\<close> below every string (SQLite, MySQL),
  and the same collation with \<^verbatim>\<open>NULL\<close> above every string, so first in a descending
  order (PostgreSQL, Oracle).
\<close>

definition binary_nulls_low :: "string option \<Rightarrow> string option" where
  "binary_nulls_low d = d"

definition binary_nulls_high :: "string option \<Rightarrow> nat \<times> string" where
  "binary_nulls_high d = (case d of None \<Rightarrow> (1, []) | Some v \<Rightarrow> (0, v))"

text \<open>
  An order of the column in which a missing domain, \<^verbatim>\<open>NULL\<close> or the empty string, comes
  below every non-empty one.
\<close>

definition no_domain_lowest :: "(string option \<Rightarrow> 'r::ord) \<Rightarrow> bool" where
  "no_domain_lowest rank \<longleftrightarrow>
     (\<forall>d. d \<noteq> [] \<longrightarrow> rank None < rank (Some d) \<and> rank (Some []) < rank (Some d))"

text \<open>\<^verbatim>\<open>QuerySet.first()\<close>: the first row, or \<^verbatim>\<open>None\<close> when there is none.\<close>

definition first :: "'a list \<Rightarrow> 'a option" where
  "first rows = (case rows of [] \<Rightarrow> None | r # _ \<Rightarrow> Some r)"

text \<open>
  \<^verbatim>\<open>get_site_or_none\<close>:
  \<^verbatim>\<open>
    return get_site_model().objects.filter(
        subdomain=subdomain).order_by('-domain', '-pk').first()
  \<close>
  \<open>objects\<close> is the content of the table and \<open>rank\<close> the order of the database.
\<close>

definition get_site_or_none ::
  "(string option \<Rightarrow> 'r::linorder) \<Rightarrow> site list \<Rightarrow> string \<Rightarrow> site option" where
  "get_site_or_none rank objects sub =
     first (order_by_desc rank (filter (\<lambda>s. subdomain s = sub) objects))"

section \<open>The per-prefix resolution cache (\<^verbatim>\<open>urlresolvers.py\<close>)\<close>

subsection \<open>Dictionaries\<close>

text \<open>
  A Python \<^verbatim>\<open>dict\<close> is an association list in insertion order with distinct keys.
  \<open>dict_set\<close> is \<^verbatim>\<open>d[k] = v\<close>, \<open>has_key\<close> is \<^verbatim>\<open>k in d\<close>, and \<open>dict_update d other\<close> is
  \<^verbatim>\<open>dict(d, **other)\<close>.
\<close>

fun dict_set :: "'k \<Rightarrow> 'v \<Rightarrow> ('k \<times> 'v) list \<Rightarrow> ('k \<times> 'v) list" where
  "dict_set k v [] = [(k, v)]"
| "dict_set k v ((k', v') # d) =
     (if k = k' then (k', v) # d else (k', v') # dict_set k v d)"

definition has_key :: "'k \<Rightarrow> ('k \<times> 'v) list \<Rightarrow> bool" where
  "has_key k d = (map_of d k \<noteq> None)"

definition dict_update :: "('k \<times> 'v) list \<Rightarrow> ('k \<times> 'v) list \<Rightarrow> ('k \<times> 'v) list" where
  "dict_update d other = foldl (\<lambda>d (k, v). dict_set k v d) d other"

text \<open>
  Django's \<^verbatim>\<open>MultiValueDict\<close> maps a key to a list. \<^verbatim>\<open>appendlist(k, v)\<close> appends to the
  list of \<open>k\<close>, creating it when missing; \<^verbatim>\<open>getlist(k)\<close> is that list, or the empty list.
  \<open>setdefault_extend k vs\<close> is \<^verbatim>\<open>d.setdefault(k, []).extend(vs)\<close> on a plain dict of
  lists.
\<close>

fun appendlist :: "'k \<Rightarrow> 'v \<Rightarrow> ('k \<times> 'v list) list \<Rightarrow> ('k \<times> 'v list) list" where
  "appendlist k v [] = [(k, [v])]"
| "appendlist k v ((k', vs) # d) =
     (if k = k' then (k', vs @ [v]) # d else (k', vs) # appendlist k v d)"

definition getlist :: "'k \<Rightarrow> ('k \<times> 'v list) list \<Rightarrow> 'v list" where
  "getlist k d = (case map_of d k of None \<Rightarrow> [] | Some vs \<Rightarrow> vs)"

fun setdefault_extend :: "'k \<Rightarrow> 'v list \<Rightarrow> ('k \<times> 'v list) list \<Rightarrow> ('k \<times> 'v list) list" where
  "setdefault_extend k vs [] = [(k, vs)]"
| "setdefault_extend k vs ((k', ws) # d) =
     (if k = k' then (k', ws @ vs) # d else (k', ws) # setdefault_extend k vs d)"

subsection \<open>Patterns, resolvers and the heap\<close>

text \<open>
  A leaf of the pattern graph (\<^verbatim>\<open>DjangoRegexURLPattern\<close>) with the attributes that
  \<^verbatim>\<open>_populate\<close> reads. The callback is a callable, named by its dotted path.
\<close>

record url_pattern =
  pat_regex :: re
  pat_callback :: string
  pat_lookup_str :: string
  pat_name :: "string option"
  pat_default_args :: "(string \<times> pyval) list"

text \<open>
  An element of \<^verbatim>\<open>url_patterns\<close> is a leaf or a resolver. Resolvers are mutable objects
  that the tables refer to, so they live in a heap and are named by their address.
\<close>

datatype node = URLPattern url_pattern | URLResolver nat

text \<open>
  The keys of the reverse multimap are callbacks and names, which never compare equal. An
  entry is the tuple \<^verbatim>\<open>(bits, p_pattern, default_args)\<close>; \<open>'b\<close> is the type of what
  \<^verbatim>\<open>django.utils.regex_helper.normalize\<close> returns.
\<close>

datatype lookup_key = Callback string | Name string

type_synonym 'b entry = "'b \<times> string \<times> (string \<times> pyval) list"

type_synonym 'b lookups = "(lookup_key \<times> 'b entry list) list"

type_synonym namespaces = "(string \<times> string \<times> nat) list"

type_synonym apps = "(string \<times> string list) list"

text \<open>
  The two resolver classes of the module. The fields up to \<open>default_kwargs\<close> are set by
  \<^verbatim>\<open>__init__\<close> and never assigned again; \<open>populating\<close> is \<^verbatim>\<open>self._local.populating\<close> as
  the running thread sees it (\<^verbatim>\<open>getattr(self._local, 'populating', False)\<close>); the
  \<open>priv_\<close> fields are the attributes \<^verbatim>\<open>_reverse_dict\<close>, \<^verbatim>\<open>_namespace_dict\<close>,
  \<^verbatim>\<open>_app_dict\<close> (each keyed by path prefix), \<^verbatim>\<open>_callback_strs\<close> and \<^verbatim>\<open>_populated\<close>.
\<close>

datatype resolver_class = RegexURLResolver | SiteRegexURLResolver

record 'b resolver =
  cls :: resolver_class
  init_regex :: string
  url_patterns :: "node list"
  namespace :: "string option"
  app_name :: "string option"
  default_kwargs :: "(string \<times> pyval) list"
  populating :: bool
  priv_reverse_dict :: "(string \<times> 'b lookups) list"
  priv_namespace_dict :: "(string \<times> namespaces) list"
  priv_app_dict :: "(string \<times> apps) list"
  priv_callback_strs :: "string set"
  priv_populated :: bool

type_synonym 'b heap = "nat \<Rightarrow> 'b resolver"

text \<open>
  \<^verbatim>\<open>__init__(regex, urlconf_name, default_kwargs, app_name, namespace)\<close>: the object as
  the constructor leaves it, with empty tables.
\<close>

definition new_resolver ::
  "resolver_class \<Rightarrow> string \<Rightarrow> node list \<Rightarrow> (string \<times> pyval) list \<Rightarrow> string option
     \<Rightarrow> string option \<Rightarrow> 'b resolver" where
  "new_resolver c r ps kw app ns =
     \<lparr>cls = c, init_regex = r, url_patterns = ps, namespace = ns, app_name = app,
      default_kwargs = kw, populating = False, priv_reverse_dict = [],
      priv_namespace_dict = [], priv_app_dict = [], priv_callback_strs = {},
      priv_populated = False\<rparr>"

text \<open>
  The \<^verbatim>\<open>regex\<close> property: \<^verbatim>\<open>SiteRegexURLResolver\<close> overrides it with the prefix of the
  active tenant; the base class compiles the regex it was constructed with.
\<close>

definition regex :: "site_handle option \<Rightarrow> 'b resolver \<Rightarrow> re" where
  "regex current_site r =
     (case cls r of
        SiteRegexURLResolver \<Rightarrow> site_regex current_site
      | RegexURLResolver \<Rightarrow> ReCompile (init_regex r))"

subsection \<open>Results of stateful calls\<close>

text \<open>
  A call returns a value or raises, and leaves a heap in both cases; \<open>None\<close> says that the
  fuel of the model ran out before the call came back.
\<close>

type_synonym ('a, 'b) result = "((py_error + 'a) \<times> 'b heap) option"

definition returns :: "'a \<Rightarrow> 'b heap \<Rightarrow> ('a, 'b) result" where
  "returns a h = Some (Inr a, h)"

definition raises :: "py_error \<Rightarrow> 'b heap \<Rightarrow> ('a, 'b) result" where
  "raises e h = Some (Inl e, h)"

text \<open>Sequencing: an exception of the first call propagates with the heap it left.\<close>

definition and_then ::
  "('a, 'b) result \<Rightarrow> ('a \<Rightarrow> 'b heap \<Rightarrow> ('c, 'b) result) \<Rightarrow> ('c, 'b) result" where
  "and_then m f =
     (case m of
        None \<Rightarrow> None
      | Some (Inl e, h) \<Rightarrow> Some (Inl e, h)
      | Some (Inr a, h) \<Rightarrow> f a h)"

text \<open>
  \<^verbatim>\<open>_populate\<close> calls itself on the child resolvers, directly and through their table
  properties. The functions below take that recursive call as the argument \<open>pop\<close>;
  \<open>populate\<close> ties the knot with a fuel counter.
\<close>

type_synonym 'b populate_fn = "'b heap \<Rightarrow> nat \<Rightarrow> (unit, 'b) result"

subsection \<open>The table properties\<close>

text \<open>
  \<^verbatim>\<open>
    @property
    def reverse_dict(self):
        path_prefix = self._get_path_prefix()
        if path_prefix not in self._reverse_dict:
            self._populate()
        return self._reverse_dict[path_prefix]
  \<close>
  and the same for \<^verbatim>\<open>namespace_dict\<close> and \<^verbatim>\<open>app_dict\<close>. The subscript raises
  \<^verbatim>\<open>KeyError\<close> when the key is still missing.
\<close>

definition reverse_dict_with ::
  "'b populate_fn \<Rightarrow> site_handle option \<Rightarrow> 'b heap \<Rightarrow> nat \<Rightarrow> ('b lookups, 'b) result" where
  "reverse_dict_with pop current_site h self =
     (let pp = get_path_prefix current_site in
      and_then
        (if \<not> has_key pp (priv_reverse_dict (h self)) then pop h self else returns () h)
        (\<lambda>_ h'. case map_of (priv_reverse_dict (h' self)) pp of
                   None \<Rightarrow> raises KeyError h'
                 | Some table \<Rightarrow> returns table h'))"

definition namespace_dict_with ::
  "'b populate_fn \<Rightarrow> site_handle option \<Rightarrow> 'b heap \<Rightarrow> nat \<Rightarrow> (namespaces, 'b) result" where
  "namespace_dict_with pop current_site h self =
     (let pp = get_path_prefix current_site in
      and_then
        (if \<not> has_key pp (priv_namespace_dict (h self)) then pop h self else returns () h)
        (\<lambda>_ h'. case map_of (priv_namespace_dict (h' self)) pp of
                   None \<Rightarrow> raises KeyError h'
                 | Some table \<Rightarrow> returns table h'))"

definition app_dict_with ::
  "'b populate_fn \<Rightarrow> site_handle option \<Rightarrow> 'b heap \<Rightarrow> nat \<Rightarrow> (apps, 'b) result" where
  "app_dict_with pop current_site h self =
     (let pp = get_path_prefix current_site in
      and_then
        (if \<not> has_key pp (priv_app_dict (h self)) then pop h self else returns () h)
        (\<lambda>_ h'. case map_of (priv_app_dict (h' self)) pp of
                   None \<Rightarrow> raises KeyError h'
                 | Some table \<Rightarrow> returns table h'))"

subsection \<open>One iteration of the loop of \<^verbatim>\<open>_populate\<close>\<close>

text \<open>The three local tables \<^verbatim>\<open>lookups\<close>, \<^verbatim>\<open>namespaces\<close> and \<^verbatim>\<open>apps\<close>.\<close>

type_synonym 'b tables = "'b lookups \<times> namespaces \<times> apps"

text \<open>
  A leaf (lines 72-77 and 107-113):
  \<^verbatim>\<open>
    self._callback_strs.add(pattern.lookup_str)
    p_pattern = pattern.regex.pattern
    if p_pattern.startswith('^'):
        p_pattern = p_pattern[1:]
    bits = normalize(p_pattern)
    lookups.appendlist(pattern.callback, (bits, p_pattern, pattern.default_args))
    if pattern.name is not None:
        lookups.appendlist(pattern.name, (bits, p_pattern, pattern.default_args))
  \<close>
\<close>

definition visit_pattern ::
  "(string \<Rightarrow> 'b) \<Rightarrow> nat \<Rightarrow> url_pattern \<Rightarrow> 'b tables \<Rightarrow> 'b heap \<Rightarrow> ('b tables, 'b) result" where
  "visit_pattern normalise self p acc h =
     (case acc of (lookups, namespaces, apps) \<Rightarrow>
        let h1 = h(self := (h self)\<lparr>priv_callback_strs :=
                     insert (pat_lookup_str p) (priv_callback_strs (h self))\<rparr>);
            p_pattern = strip_anchor (pattern (pat_regex p));
            bits = normalise p_pattern;
            lookups1 = appendlist (Callback (pat_callback p))
                         (bits, p_pattern, pat_default_args p) lookups;
            lookups2 = (case pat_name p of
                          None \<Rightarrow> lookups1
                        | Some name \<Rightarrow>
                            appendlist (Name name) (bits, p_pattern, pat_default_args p) lookups1)
        in returns (lookups2, namespaces, apps) h1)"

text \<open>
  The three merges of an include without namespace (lines 85-103), on the tables the child's
  properties returned:
  \<^verbatim>\<open>
    for name in pattern.reverse_dict:
        for _, pat, defaults in pattern.reverse_dict.getlist(name):
            new_matches = normalize(parent_pat + pat)
            lookups.appendlist(name,
                (new_matches, p_pattern + pat,
                 dict(defaults, **pattern.default_kwargs)))
    for namespace, (prefix, sub_pattern) in pattern.namespace_dict.items():
        namespaces[namespace] = (p_pattern + prefix, sub_pattern)
    for app_name, namespace_list in pattern.app_dict.items():
        apps.setdefault(app_name, []).extend(namespace_list)
  \<close>
\<close>

definition merge_reverse ::
  "(string \<Rightarrow> 'b) \<Rightarrow> string \<Rightarrow> string \<Rightarrow> (string \<times> pyval) list \<Rightarrow> 'b lookups \<Rightarrow> 'b lookups
     \<Rightarrow> 'b lookups" where
  "merge_reverse normalise parent_pat p_pattern kwargs child lookups =
     foldl (\<lambda>lookups name.
        foldl (\<lambda>lookups (_, pat, defaults).
            appendlist name
              (normalise (parent_pat @ pat), p_pattern @ pat, dict_update defaults kwargs)
              lookups)
          lookups (getlist name child))
       lookups (map fst child)"

definition merge_namespaces :: "string \<Rightarrow> namespaces \<Rightarrow> namespaces \<Rightarrow> namespaces" where
  "merge_namespaces p_pattern child namespaces =
     foldl (\<lambda>namespaces (ns, prefix, sub_pattern).
              dict_set ns (p_pattern @ prefix, sub_pattern) namespaces)
       namespaces child"

definition merge_apps :: "apps \<Rightarrow> apps \<Rightarrow> apps" where
  "merge_apps child apps =
     foldl (\<lambda>apps (app, namespace_list). setdefault_extend app namespace_list apps) apps child"

text \<open>
  A resolver child, first part (lines 75-103): an include with a namespace is registered
  under it; otherwise the child's three tables are read through its properties, which
  populate the child when the prefix is not cached there, and merged. The property
  \<^verbatim>\<open>pattern.reverse_dict\<close> is read again for every name of the inner loop; each of these
  reads finds the prefix cached, since the first read returned, and yields the same table.
\<close>

definition register_child ::
  "'b populate_fn \<Rightarrow> (string \<Rightarrow> 'b) \<Rightarrow> site_handle option \<Rightarrow> nat \<Rightarrow> 'b tables \<Rightarrow> 'b heap
     \<Rightarrow> ('b tables, 'b) result" where
  "register_child pop normalise current_site child acc h =
     (case acc of (lookups, namespaces, apps) \<Rightarrow>
        let p_pattern = strip_anchor (pattern (regex current_site (h child))) in
        if truthy (namespace (h child)) then
          (let ns = the (namespace (h child));
               namespaces1 = dict_set ns (p_pattern, child) namespaces;
               apps1 = (if truthy (app_name (h child))
                        then setdefault_extend (the (app_name (h child))) [ns] apps
                        else apps)
           in returns (lookups, namespaces1, apps1) h)
        else
          (let parent_pat = pattern (regex current_site (h child)) in
           and_then (reverse_dict_with pop current_site h child) (\<lambda>child_lookups h1.
           and_then (namespace_dict_with pop current_site h1 child) (\<lambda>child_namespaces h2.
           and_then (app_dict_with pop current_site h2 child) (\<lambda>child_apps h3.
             returns
               (merge_reverse normalise parent_pat p_pattern (default_kwargs (h1 child))
                  child_lookups lookups,
                merge_namespaces p_pattern child_namespaces namespaces,
                merge_apps child_apps apps) h3)))))"

text \<open>
  A resolver child, second part (lines 104-106):
  \<^verbatim>\<open>
    if not getattr(pattern._local, 'populating', False):
        pattern._populate()
    self._callback_strs.update(pattern._callback_strs)
  \<close>
\<close>

definition visit_resolver ::
  "'b populate_fn \<Rightarrow> (string \<Rightarrow> 'b) \<Rightarrow> site_handle option \<Rightarrow> nat \<Rightarrow> nat \<Rightarrow> 'b tables \<Rightarrow> 'b heap
     \<Rightarrow> ('b tables, 'b) result" where
  "visit_resolver pop normalise current_site self child acc h =
     and_then (register_child pop normalise current_site child acc h) (\<lambda>acc1 h4.
     and_then (if \<not> populating (h4 child) then pop h4 child else returns () h4) (\<lambda>_ h5.
       returns acc1
         (h5(self := (h5 self)\<lparr>priv_callback_strs :=
               priv_callback_strs (h5 self) \<union> priv_callback_strs (h5 child)\<rparr>))))"

fun visit ::
  "'b populate_fn \<Rightarrow> (string \<Rightarrow> 'b) \<Rightarrow> site_handle option \<Rightarrow> nat \<Rightarrow> node \<Rightarrow> 'b tables \<Rightarrow> 'b heap
     \<Rightarrow> ('b tables, 'b) result" where
  "visit pop normalise current_site self (URLPattern p) acc h =
     visit_pattern normalise self p acc h"
| "visit pop normalise current_site self (URLResolver child) acc h =
     visit_resolver pop normalise current_site self child acc h"

text \<open>The \<^verbatim>\<open>for\<close> loop over the patterns it is given; an exception ends it.\<close>

fun walk ::
  "'b populate_fn \<Rightarrow> (string \<Rightarrow> 'b) \<Rightarrow> site_handle option \<Rightarrow> nat \<Rightarrow> node list \<Rightarrow> 'b tables
     \<Rightarrow> 'b heap \<Rightarrow> ('b tables, 'b) result" where
  "walk pop normalise current_site self [] acc h = returns acc h"
| "walk pop normalise current_site self (p # ps) acc h =
     and_then (visit pop normalise current_site self p acc h)
       (walk pop normalise current_site self ps)"

subsection \<open>\<^verbatim>\<open>_populate\<close>\<close>

text \<open>
  \<^verbatim>\<open>
    if getattr(self._local, 'populating', False):
        return
    self._local.populating = True
    lookups = MultiValueDict(); namespaces = {}; apps = {}
    path_prefix = self._get_path_prefix()
    for pattern in reversed(self.url_patterns):
        ...
    self._reverse_dict[path_prefix] = lookups
    self._namespace_dict[path_prefix] = namespaces
    self._app_dict[path_prefix] = apps
    self._populated = True
    self._local.populating = False
  \<close>
  There is no \<^verbatim>\<open>try\<close>: an exception raised in the loop leaves through \<open>and_then\<close> with
  the heap as it stands.
\<close>

definition populate_with ::
  "'b populate_fn \<Rightarrow> (string \<Rightarrow> 'b) \<Rightarrow> site_handle option \<Rightarrow> 'b heap \<Rightarrow> nat \<Rightarrow> (unit, 'b) result" where
  "populate_with pop normalise current_site h self =
     (if populating (h self) then returns () h
      else
        let h1 = h(self := (h self)\<lparr>populating := True\<rparr>);
            pp = get_path_prefix current_site
        in and_then
             (walk pop normalise current_site self (rev (url_patterns (h1 self))) ([], [], []) h1)
             (\<lambda>acc h2. case acc of (lookups, namespaces, apps) \<Rightarrow>
                returns ()
                  (h2(self := (h2 self)\<lparr>
                     populating := False,
                     priv_reverse_dict := dict_set pp lookups (priv_reverse_dict (h2 self)),
                     priv_namespace_dict := dict_set pp namespaces (priv_namespace_dict (h2 self)),
                     priv_app_dict := dict_set pp apps (priv_app_dict (h2 self)),
                     priv_populated := True\<rparr>))))"

text \<open>
  \<open>populate normalise current_site fuel h self\<close> is \<^verbatim>\<open>self._populate()\<close> on the heap
  \<open>h\<close>, for the thread whose tenant is \<open>current_site\<close>. Each level of nested calls uses
  one unit of fuel; the guard itself needs none.
\<close>

fun populate ::
  "(string \<Rightarrow> 'b) \<Rightarrow> site_handle option \<Rightarrow> nat \<Rightarrow> 'b heap \<Rightarrow> nat \<Rightarrow> (unit, 'b) result" where
  "populate normalise current_site 0 h self =
     (if populating (h self) then returns () h else None)"
| "populate normalise current_site (Suc fuel) h self =
     populate_with (populate normalise current_site fuel) normalise current_site h self"

definition reverse_dict ::
  "(string \<Rightarrow> 'b) \<Rightarrow> site_handle option \<Rightarrow> nat \<Rightarrow> 'b heap \<Rightarrow> nat \<Rightarrow> ('b lookups, 'b) result" where
  "reverse_dict normalise current_site fuel h self =
     reverse_dict_with (populate normalise current_site fuel) current_site h self"

definition namespace_dict ::
  "(string \<Rightarrow> 'b) \<Rightarrow> site_handle option \<Rightarrow> nat \<Rightarrow> 'b heap \<Rightarrow> nat \<Rightarrow> (namespaces, 'b) result" where
  "namespace_dict normalise current_site fuel h self =
     namespace_dict_with (populate normalise current_site fuel) current_site h self"

definition app_dict ::
  "(string \<Rightarrow> 'b) \<Rightarrow> site_handle option \<Rightarrow> nat \<Rightarrow> 'b heap \<Rightarrow> nat \<Rightarrow> (apps, 'b) result" where
  "app_dict normalise current_site fuel h self =
     app_dict_with (populate normalise current_site fuel) current_site h self"

text \<open>What a call returned or raised, and the heap it left (for reading concrete runs).\<close>

definition outcome :: "('a, 'b) result \<Rightarrow> (py_error + 'a) option" where
  "outcome m = map_option fst m"

definition heap_after :: "('a, 'b) result \<Rightarrow> 'b heap" where
  "heap_after m = snd (the m)"

subsection \<open>Example heaps\<close>

text \<open>
  A resolver that is in the middle of its first \<^verbatim>\<open>_populate\<close> on this thread: the flag is
  set and no table is stored yet.
\<close>

definition busy_resolver :: "string resolver" where
  "busy_resolver =
     (new_resolver RegexURLResolver ''^api/''
        [URLPattern \<lparr>pat_regex = ReCompile ''^items/$'', pat_callback = ''views.items'',
           pat_lookup_str = ''views.items'', pat_name = Some ''items'', pat_default_args = []\<rparr>]
        [] None None)
     \<lparr>populating := True\<rparr>"

text \<open>
  Resolver 0 includes resolver 1 without a namespace, and resolver 1 is being populated
  further up the call stack; every other address holds an empty resolver.
\<close>

definition reentered_heap :: "string heap" where
  "reentered_heap =
     (\<lambda>_. new_resolver RegexURLResolver [] [] [] None None)
     (0 := new_resolver SiteRegexURLResolver [] [URLResolver 1] [] None None,
      1 := busy_resolver)"

text \<open>A resolver whose pattern list contains the resolver itself, under a namespace.\<close>

definition cyclic_heap :: "string heap" where
  "cyclic_heap =
     (\<lambda>_. new_resolver RegexURLResolver [] [] [] None None)
     (0 := new_resolver RegexURLResolver ''^loop/'' [URLResolver 0] [] None (Some ''loop''))"

definition acme :: "site_handle option" where
  "acme = Some \<lparr>path_prefix = Some ''acme''\<rparr>"

text \<open>
  Three leaves, and a site resolver that declares two of them under the same name
  \<^verbatim>\<open>profile\<close> with, between them, an include of resolver 1 without namespace; nothing
  is populated yet.
\<close>

definition user_leaf :: url_pattern where
  "user_leaf = \<lparr>pat_regex = ReCompile ''^user/$'', pat_callback = ''views.profile'',
     pat_lookup_str = ''views.profile'', pat_name = Some ''profile'', pat_default_args = []\<rparr>"

definition me_leaf :: url_pattern where
  "me_leaf = \<lparr>pat_regex = ReCompile ''^me/$'', pat_callback = ''views.me'',
     pat_lookup_str = ''views.me'', pat_name = Some ''profile'', pat_default_args = []\<rparr>"

definition items_leaf :: url_pattern where
  "items_leaf = \<lparr>pat_regex = ReCompile ''^items/$'', pat_callback = ''views.items'',
     pat_lookup_str = ''views.items'', pat_name = Some ''items'', pat_default_args = []\<rparr>"

definition site_heap :: "string heap" where
  "site_heap =
     (\<lambda>_. new_resolver RegexURLResolver [] [] [] None None)
     (0 := new_resolver SiteRegexURLResolver []
             [URLPattern user_leaf, URLResolver 1, URLPattern me_leaf] [] None None,
      1 := new_resolver RegexURLResolver ''^api/'' [URLPattern items_leaf] [] None None)"

definition beta :: "site_handle option" where
  "beta = Some \<lparr>path_prefix = Some ''beta''\<rparr>"

text \<open>
  A site resolver that declares a leaf under the name \<^verbatim>\<open>home\<close> and, after it, an include
  without namespace of resolver 1, which declares a leaf under the same name.
\<close>

definition home_leaf :: url_pattern where
  "home_leaf = \<lparr>pat_regex = ReCompile ''^$'', pat_callback = ''views.home'',
     pat_lookup_str = ''views.home'', pat_name = Some ''home'', pat_default_args = []\<rparr>"

definition shop_home_leaf :: url_pattern where
  "shop_home_leaf = \<lparr>pat_regex = ReCompile ''^$'', pat_callback = ''shop.views.home'',
     pat_lookup_str = ''shop.views.home'', pat_name = Some ''home'', pat_default_args = []\<rparr>"

definition override_heap :: "string heap" where
  "override_heap =
     (\<lambda>_. new_resolver RegexURLResolver [] [] [] None None)
     (0 := new_resolver SiteRegexURLResolver [] [URLPattern home_leaf, URLResolver 1] [] None None,
      1 := new_resolver RegexURLResolver ''^shop/'' [URLPattern shop_home_leaf] [] None None)"

subsection \<open>What a build leaves alone\<close>

definition stable :: "string \<Rightarrow> 'b heap \<Rightarrow> 'b heap \<Rightarrow> bool" where
  "stable pp h h' \<longleftrightarrow>
     (\<forall>r. (populating (h r) \<longrightarrow> populating (h' r))
        \<and> cls (h' r) = cls (h r) \<and> init_regex (h' r) = init_regex (h r)
        \<and> url_patterns (h' r) = url_patterns (h r)
        \<and> namespace (h' r) = namespace (h r) \<and> app_name (h' r) = app_name (h r)
        \<and> default_kwargs (h' r) = default_kwargs (h r)
        \<and> (\<forall>p. p \<noteq> pp \<longrightarrow>
              map_of (priv_reverse_dict (h' r)) p = map_of (priv_reverse_dict (h r)) p
              \<and> map_of (priv_namespace_dict (h' r)) p = map_of (priv_namespace_dict (h r)) p
              \<and> map_of (priv_app_dict (h' r)) p = map_of (priv_app_dict (h r)) p))"

definition keeps :: "string \<Rightarrow> 'b populate_fn \<Rightarrow> bool" where
  "keeps pp pop \<longleftrightarrow> (\<forall>h r res h'. pop h r = Some (res, h') \<longrightarrow> stable pp h h')"

subsection \<open>Enough fuel\<close>

definition closed :: "nat set \<Rightarrow> 'b heap \<Rightarrow> bool" where
  "closed A h \<longleftrightarrow> (\<forall>r\<in>A. \<forall>c. URLResolver c \<in> set (url_patterns (h r)) \<longrightarrow> c \<in> A)"

definition idle :: "nat set \<Rightarrow> 'b heap \<Rightarrow> nat set" where
  "idle A h = {r \<in> A. \<not> populating (h r)}"

definition answers :: "string \<Rightarrow> 'b populate_fn \<Rightarrow> nat set \<Rightarrow> 'b heap \<Rightarrow> bool" where
  "answers pp pop A h0 \<longleftrightarrow> (\<forall>h c. stable pp h0 h \<longrightarrow> c \<in> A \<longrightarrow> pop h c \<noteq> None)"

subsection \<open>The order of the entries\<close>

text \<open>The tuple that lines 108-113 store for a leaf: \<^verbatim>\<open>(bits, p_pattern, default_args)\<close>.\<close>

definition leaf_entry :: "(string \<Rightarrow> 'b) \<Rightarrow> url_pattern \<Rightarrow> 'b entry" where
  "leaf_entry normalise p =
     (normalise (strip_anchor (pattern (pat_regex p))),
      strip_anchor (pattern (pat_regex p)),
      pat_default_args p)"

text \<open>The loop only appends: the list of a key grows at its end.\<close>

definition extends :: "'k \<Rightarrow> ('k \<times> 'v list) list \<Rightarrow> ('k \<times> 'v list) list \<Rightarrow> bool" where
  "extends k d d' \<longleftrightarrow> (\<exists>more. getlist k d' = getlist k d @ more)"

text \<open>
  A leaf is stored under its callback and, when it has one, under its name (lines 109-113);
  \<open>leaf_segment\<close> is what one leaf appends to the list of the key \<open>k\<close>.
\<close>

definition carries :: "url_pattern \<Rightarrow> lookup_key \<Rightarrow> bool" where
  "carries p k \<longleftrightarrow> k = Callback (pat_callback p) \<or> map_option Name (pat_name p) = Some k"

definition leaf_segment :: "(string \<Rightarrow> 'b) \<Rightarrow> url_pattern \<Rightarrow> lookup_key \<Rightarrow> 'b entry list" where
  "leaf_segment normalise p k = (if carries p k then [leaf_entry normalise p] else [])"

text \<open>Leaves that do not carry the key leave its list alone.\<close>

definition other_leaves :: "lookup_key \<Rightarrow> node list \<Rightarrow> bool" where
  "other_leaves k ps \<longleftrightarrow> (\<forall>q\<in>set ps. \<exists>u. q = URLPattern u \<and> \<not> carries u k)"

text \<open>
  The tuple that lines 88-96 store for one entry \<^verbatim>\<open>(_, pat, defaults)\<close> of the table of
  an include: \<^verbatim>\<open>(normalize(parent_pat + pat), p_pattern + pat, dict(defaults,
  **pattern.default_kwargs))\<close>; and what the two loops of lines 85-97 append to the list
  of the key \<open>k\<close>, for an include with the regex \<open>r\<close> and the table \<open>t\<close>.
\<close>

definition merged_entry ::
  "(string \<Rightarrow> 'b) \<Rightarrow> string \<Rightarrow> string \<Rightarrow> (string \<times> pyval) list \<Rightarrow> 'b entry \<Rightarrow> 'b entry" where
  "merged_entry normalise parent_pat p_pattern kwargs e =
     (case e of (_, pat, defaults) \<Rightarrow>
        (normalise (parent_pat @ pat), p_pattern @ pat, dict_update defaults kwargs))"

definition include_segment ::
  "(string \<Rightarrow> 'b) \<Rightarrow> re \<Rightarrow> (string \<times> pyval) list \<Rightarrow> 'b lookups \<Rightarrow> lookup_key \<Rightarrow> 'b entry list" where
  "include_segment normalise r kwargs t k =
     concat (map (\<lambda>name. if k = name
                    then map (merged_entry normalise (pattern r) (strip_anchor (pattern r)) kwargs)
                           (getlist name t)
                    else [])
               (map fst t))"

definition patterns_of :: "'b entry list \<Rightarrow> string set" where
  "patterns_of entries = set (map (fst \<circ> snd) entries)"

subsection \<open>What a pattern graph declares\<close>

text \<open>
  The wording of the specification, "every name and handler declared in the graph", as a
  relation to compare the tables with: \<open>declared cs h r k pat\<close> says that the graph below
  resolver \<open>r\<close> declares, under the key \<open>k\<close>, a route whose accumulated pattern is
  \<open>pat\<close>: a leaf of \<open>r\<close> with its anchor stripped, or a route of an include without
  namespace behind the regex of that include. \<open>has_entry\<close> reads a table, \<open>covers\<close> says
  that a table has an entry for every declared route, and \<open>good_cache\<close> that every table
  cached for the current prefix covers its resolver.
\<close>

inductive declared :: "site_handle option \<Rightarrow> 'b heap \<Rightarrow> nat \<Rightarrow> lookup_key \<Rightarrow> string \<Rightarrow> bool"
  for cs :: "site_handle option" and h :: "'b heap" where
  by_callback:
    "URLPattern p \<in> set (url_patterns (h r)) \<Longrightarrow>
       declared cs h r (Callback (pat_callback p)) (strip_anchor (pattern (pat_regex p)))"
| by_name:
    "URLPattern p \<in> set (url_patterns (h r)) \<Longrightarrow> pat_name p = Some n \<Longrightarrow>
       declared cs h r (Name n) (strip_anchor (pattern (pat_regex p)))"
| by_include:
    "URLResolver c \<in> set (url_patterns (h r)) \<Longrightarrow> \<not> truthy (namespace (h c)) \<Longrightarrow>
       declared cs h c k pat \<Longrightarrow>
       declared cs h r k (strip_anchor (pattern (regex cs (h c))) @ pat)"

definition has_entry :: "'b lookups \<Rightarrow> lookup_key \<Rightarrow> string \<Rightarrow> bool" where
  "has_entry table k pat \<longleftrightarrow> pat \<in> set (map (fst \<circ> snd) (getlist k table))"

definition covers :: "site_handle option \<Rightarrow> 'b heap \<Rightarrow> nat \<Rightarrow> 'b lookups \<Rightarrow> bool" where
  "covers cs h r table \<longleftrightarrow> (\<forall>k pat. declared cs h r k pat \<longrightarrow> has_entry table k pat)"

definition good_cache :: "site_handle option \<Rightarrow> 'b heap \<Rightarrow> bool" where
  "good_cache cs h \<longleftrightarrow>
     (\<forall>r table. map_of (priv_reverse_dict (h r)) (get_path_prefix cs) = Some table
        \<longrightarrow> covers cs h r table)"

subsection \<open>Every cached table covers what its resolver declares\<close>

definition preserves :: "site_handle option \<Rightarrow> 'b populate_fn \<Rightarrow> bool" where
  "preserves cs pop \<longleftrightarrow>
     (\<forall>h r res h'. good_cache cs h \<longrightarrow> pop h r = Some (res, h') \<longrightarrow> good_cache cs h')"

text \<open>What the tables hold for one node of the pattern list, once the loop has passed it.\<close>

fun node_done :: "site_handle option \<Rightarrow> 'b heap \<Rightarrow> 'b lookups \<Rightarrow> node \<Rightarrow> bool" where
  "node_done cs h table (URLPattern p) \<longleftrightarrow>
     has_entry table (Callback (pat_callback p)) (strip_anchor (pattern (pat_regex p)))
     \<and> (\<forall>n. pat_name p = Some n \<longrightarrow>
           has_entry table (Name n) (strip_anchor (pattern (pat_regex p))))"
| "node_done cs h table (URLResolver c) \<longleftrightarrow>
     truthy (namespace (h c))
     \<or> (\<forall>k pat. declared cs h c k pat \<longrightarrow>
           has_entry table k (strip_anchor (pattern (regex cs (h c))) @ pat))"

subsection \<open>What one child of the pattern list contributes\<close>

text \<open>
  The wording of the specification, "two patterns register entries under the same name",
  for a top-level child of either kind: \<open>node_declares cs h nd k pat\<close> says that the
  child \<open>nd\<close> declares under the key \<open>k\<close> a route with the accumulated pattern \<open>pat\<close>,
  as a leaf or as an include without namespace of a graph that declares it.
\<close>

fun node_declares ::
  "site_handle option \<Rightarrow> 'b heap \<Rightarrow> node \<Rightarrow> lookup_key \<Rightarrow> string \<Rightarrow> bool" where
  "node_declares cs h (URLPattern p) k pat \<longleftrightarrow>
     carries p k \<and> pat = strip_anchor (pattern (pat_regex p))"
| "node_declares cs h (URLResolver c) k pat \<longleftrightarrow>
     \<not> truthy (namespace (h c))
     \<and> (\<exists>pat'. declared cs h c k pat'
           \<and> pat = strip_anchor (pattern (regex cs (h c))) @ pat')"

text \<open>
  \<open>contributes normalise cs h nd k S\<close>: the entries \<open>S\<close> are what the child \<open>nd\<close> adds
  to the list of the key \<open>k\<close>. A leaf adds its tuple when it carries the key; an include
  with a namespace adds nothing; an include without namespace adds the merged entries of
  a table \<open>t\<close> of the included resolver, which covers what that resolver declares when the
  tables cached beforehand did.
\<close>

fun contributes ::
  "(string \<Rightarrow> 'b) \<Rightarrow> site_handle option \<Rightarrow> 'b heap \<Rightarrow> node \<Rightarrow> lookup_key \<Rightarrow> 'b entry list
     \<Rightarrow> bool" where
  "contributes normalise cs h (URLPattern p) k S \<longleftrightarrow> S = leaf_segment normalise p k"
| "contributes normalise cs h (URLResolver c) k S \<longleftrightarrow>
     (if truthy (namespace (h c)) then S = []
      else \<exists>t. S = include_segment normalise (regex cs (h c)) (default_kwargs (h c)) t k
             \<and> (good_cache cs h \<longrightarrow> covers cs h c t))"

chapter \<open>Lemmas\<close>

section \<open>The site registry (\<^verbatim>\<open>models.py\<close>)\<close>

subsection \<open>The matcher decides the matching relation\<close>

inductive_simps m_Zero_iff [simp]: "rx_matches Zero w"

inductive_simps m_One_iff [simp]: "rx_matches One w"

inductive_simps m_Chr_iff [simp]: "rx_matches (Chr c) w"

inductive_simps m_Range_iff [simp]: "rx_matches (Range lo hi) w"

inductive_simps m_Alt_iff [simp]: "rx_matches (Alt r s) w"

inductive_simps m_Seq_iff: "rx_matches (Seq r s) w"

lemma nullable_iff: "nullable r \<longleftrightarrow> rx_matches r []"
  by (induction r) (auto simp: m_Seq_iff intro: rx_matches.intros)

lemma star_cons_split:
  "rx_matches q w \<Longrightarrow> q = Star r \<Longrightarrow> w = c # v \<Longrightarrow>
     \<exists>u t. v = u @ t \<and> rx_matches r (c # u) \<and> rx_matches (Star r) t"
proof (induction q w arbitrary: v rule: rx_matches.induct)
  case (m_StarCons r' u v')
  show ?case
  proof (cases u)
    case Nil
    with m_StarCons show ?thesis by simp
  next
    case (Cons a u')
    with m_StarCons.prems m_StarCons.hyps show ?thesis by auto
  qed
qed simp_all

lemma deriv_iff: "rx_matches (deriv c r) w \<longleftrightarrow> rx_matches r (c # w)"
proof (induction r arbitrary: w)
  case (Seq r s)
  show ?case
  proof
    assume "rx_matches (deriv c (Seq r s)) w"
    then show "rx_matches (Seq r s) (c # w)"
      using Seq
      by (auto simp: m_Seq_iff nullable_iff split: if_splits)
         (metis append_Cons append_Nil)+
  next
    assume "rx_matches (Seq r s) (c # w)"
    then obtain u v where uv: "c # w = u @ v" "rx_matches r u" "rx_matches s v"
      by (auto simp: m_Seq_iff)
    show "rx_matches (deriv c (Seq r s)) w"
    proof (cases u)
      case Nil
      with uv Seq show ?thesis by (auto simp: nullable_iff m_Seq_iff)
    next
      case (Cons a u')
      with uv Seq show ?thesis by (auto simp: nullable_iff m_Seq_iff)
    qed
  qed
next
  case (Star r)
  show ?case
  proof
    assume "rx_matches (deriv c (Star r)) w"
    then obtain u v where "w = u @ v" "rx_matches r (c # u)" "rx_matches (Star r) v"
      using Star by (auto simp: m_Seq_iff)
    then show "rx_matches (Star r) (c # w)"
      using m_StarCons [of r "c # u" v] by simp
  next
    assume "rx_matches (Star r) (c # w)"
    from star_cons_split [OF this refl refl] Star
    show "rx_matches (deriv c (Star r)) w" by (auto simp: m_Seq_iff)
  qed
qed auto

lemma match_prefix_iff:
  "match_prefix r s \<longleftrightarrow> (\<exists>p q. s = p @ q \<and> rx_matches r p)"
proof (induction s arbitrary: r)
  case Nil
  then show ?case by (simp add: nullable_iff)
next
  case (Cons c cs)
  show ?case
  proof
    assume "match_prefix r (c # cs)"
    then show "\<exists>p q. c # cs = p @ q \<and> rx_matches r p"
      using Cons [of "deriv c r"]
      by (auto simp: nullable_iff deriv_iff) (metis append_Cons)
  next
    assume "\<exists>p q. c # cs = p @ q \<and> rx_matches r p"
    then obtain p q where pq: "c # cs = p @ q" "rx_matches r p" by blast
    show "match_prefix r (c # cs)"
    proof (cases p)
      case Nil
      with pq have "nullable r" by (simp add: nullable_iff)
      then show ?thesis by simp
    next
      case (Cons a p')
      with pq have "cs = p' @ q" "rx_matches (deriv c r) p'" by (auto simp: deriv_iff)
      then show ?thesis using Cons.IH [of "deriv c r"] by auto
    qed
  qed
qed

lemma re_search_iff:
  "re_search r s \<longleftrightarrow> (\<exists>u p q. s = u @ p @ q \<and> rx_matches r p)"
proof (induction s)
  case Nil
  then show ?case by (simp add: nullable_iff)
next
  case (Cons c cs)
  show ?case
  proof
    assume "re_search r (c # cs)"
    then consider "match_prefix r (c # cs)" | "re_search r cs" by auto
    then show "\<exists>u p q. c # cs = u @ p @ q \<and> rx_matches r p"
    proof cases
      case 1
      then obtain p q where "c # cs = p @ q" "rx_matches r p"
        by (auto simp: match_prefix_iff simp del: match_prefix.simps)
      then show ?thesis by (metis append_Nil)
    next
      case 2
      with Cons obtain u p q where "cs = u @ p @ q" "rx_matches r p" by blast
      then show ?thesis by (metis append_Cons)
    qed
  next
    assume "\<exists>u p q. c # cs = u @ p @ q \<and> rx_matches r p"
    then obtain u p q where upq: "c # cs = u @ p @ q" "rx_matches r p" by blast
    show "re_search r (c # cs)"
    proof (cases u)
      case Nil
      with upq have "match_prefix r (c # cs)"
        by (auto simp: match_prefix_iff simp del: match_prefix.simps)
      then show ?thesis by simp
    next
      case (Cons a u')
      with upq have "cs = u' @ p @ q" by simp
      with upq Cons.IH show ?thesis by auto
    qed
  qed
qed

lemma alnum_iff: "rx_matches alnum w \<longleftrightarrow> (\<exists>c. w = [c] \<and> is_alnum c)"
  by (auto simp: alnum_def is_alnum_def)

lemma alnum_hyphen_iff: "rx_matches alnum_hyphen w \<longleftrightarrow> (\<exists>c. w = [c] \<and> is_alnum_hyphen c)"
  by (auto simp: alnum_hyphen_def is_alnum_hyphen_def alnum_iff)

lemma star_class_only:
  "rx_matches q w \<Longrightarrow> q = Star alnum_hyphen \<Longrightarrow> list_all is_alnum_hyphen w"
  by (induction q w rule: rx_matches.induct) (auto simp: alnum_hyphen_iff)

lemma star_class_all:
  "list_all is_alnum_hyphen w \<Longrightarrow> rx_matches (Star alnum_hyphen) w"
proof (induction w)
  case Nil
  show ?case by (rule m_StarNil)
next
  case (Cons c w)
  then have "rx_matches alnum_hyphen [c]" "rx_matches (Star alnum_hyphen) w"
    by (auto simp: alnum_hyphen_iff)
  from m_StarCons [OF this] show ?case by simp
qed

lemma plus_dot_label:
  "rx_matches (Plus (Seq (Chr CHR ''.'') alnum_hyphen)) w \<Longrightarrow>
     \<exists>c t. w = CHR ''.'' # c # t \<and> is_alnum_hyphen c"
  by (auto simp: Plus_def m_Seq_iff alnum_hyphen_iff)

lemma dot_label_plus:
  "is_alnum_hyphen c \<Longrightarrow> rx_matches (Plus (Seq (Chr CHR ''.'') alnum_hyphen)) [CHR ''.'', c]"
proof -
  assume c: "is_alnum_hyphen c"
  have "rx_matches (Seq (Chr CHR ''.'') alnum_hyphen) ([CHR ''.''] @ [c])"
    by (rule m_Seq) (auto simp: alnum_hyphen_iff c)
  from m_Seq [OF this m_StarNil] show ?thesis by (simp add: Plus_def)
qed

lemma domain_regex_search_iff: "re_search domain_regex s \<longleftrightarrow> has_label_dot_label s"
proof
  assume "re_search domain_regex s"
  then obtain u p q where s: "s = u @ p @ q" and p: "rx_matches domain_regex p"
    by (auto simp: re_search_iff)
  from p obtain a l d where "p = [a] @ l @ d" "is_alnum a" "rx_matches (Star alnum_hyphen) l"
      "rx_matches (Plus (Seq (Chr CHR ''.'') alnum_hyphen)) d"
    by (auto simp: domain_regex_def m_Seq_iff [of alnum] m_Seq_iff [of "Star alnum_hyphen"] alnum_iff)
  moreover from this obtain c t where "d = CHR ''.'' # c # t" "is_alnum_hyphen c"
    using plus_dot_label by blast
  ultimately show "has_label_dot_label s"
    unfolding has_label_dot_label_def using s star_class_only [OF _ refl]
    by (intro exI [of _ u] exI [of _ a] exI [of _ l] exI [of _ c] exI [of _ "t @ q"]) auto
next
  assume "has_label_dot_label s"
  then obtain u a l c w where s: "s = u @ a # l @ CHR ''.'' # c # w"
    and a: "is_alnum a" and l: "list_all is_alnum_hyphen l" and c: "is_alnum_hyphen c"
    unfolding has_label_dot_label_def by blast
  have "rx_matches (Seq (Star alnum_hyphen) (Plus (Seq (Chr CHR ''.'') alnum_hyphen)))
          (l @ [CHR ''.'', c])"
    by (rule m_Seq [OF star_class_all [OF l] dot_label_plus [OF c]])
  moreover have "rx_matches alnum [a]" by (simp add: alnum_iff a)
  ultimately have "rx_matches domain_regex ([a] @ l @ [CHR ''.'', c])"
    unfolding domain_regex_def by (rule m_Seq [rotated])
  moreover have "s = u @ ([a] @ l @ [CHR ''.'', c]) @ w" using s by simp
  ultimately show "re_search domain_regex s" unfolding re_search_iff by blast
qed

subsection \<open>The first row of a descending order is a greatest one\<close>

lemma first_order_by_desc_None: "first (order_by_desc rank rows) = None \<longleftrightarrow> rows = []"
proof -
  have "order_by_desc rank rows = [] \<longleftrightarrow> rows = []"
    unfolding order_by_desc_def by (metis rev_is_Nil_conv set_empty set_sort)
  then show ?thesis by (auto simp: first_def split: list.splits)
qed

lemma sorted_last_greatest:
  "sorted (map f ys) \<Longrightarrow> y \<in> set ys \<Longrightarrow> f y \<le> f (last ys)"
  by (induction ys) (auto split: if_splits)

lemma first_order_by_desc_Some:
  assumes "first (order_by_desc rank rows) = Some r"
  shows "r \<in> set rows \<and> (\<forall>s\<in>set rows. order_by_key rank s \<le> order_by_key rank r)"
proof -
  let ?ys = "sort_key (order_by_key rank) rows"
  from assms have ne: "?ys \<noteq> []" and r: "r = last ?ys"
    by (auto simp: first_def order_by_desc_def last_rev hd_rev split: list.splits)
  have "sorted (map (order_by_key rank) ?ys)" by simp
  then have "\<forall>s\<in>set ?ys. order_by_key rank s \<le> order_by_key rank (last ?ys)"
    by (auto intro: sorted_last_greatest [of "order_by_key rank" ?ys])
  moreover have "last ?ys \<in> set ?ys" using ne by (rule last_in_set)
  ultimately show ?thesis using r by simp
qed

lemma key_le_D:
  fixes rank :: "string option \<Rightarrow> 'r::linorder"
  shows "order_by_key rank s \<le> order_by_key rank r \<Longrightarrow>
     rank (domain s) \<le> rank (domain r)
     \<and> (rank (domain s) = rank (domain r) \<longrightarrow> pk s \<le> pk r)"
  by (auto simp: order_by_key_def less_eq_prod_def)

lemma rank_truthy:
  fixes rank :: "string option \<Rightarrow> 'r::linorder"
  assumes low: "no_domain_lowest rank"
    and le: "rank d \<le> rank e" and d: "truthy d"
  shows "truthy (e :: string option)"
proof (rule ccontr)
  assume "\<not> truthy e"
  then have e: "e = None \<or> e = Some []" by (cases e) auto
  from d obtain v where v: "d = Some v" "v \<noteq> []" by (cases d) auto
  with low e have "rank e < rank d" by (auto simp: no_domain_lowest_def)
  with le show False by simp
qed

lemma Nil_less_string: "d \<noteq> [] \<Longrightarrow> [] < (d :: string)"
  by (cases d) simp_all

lemma binary_nulls_low_lowest: "no_domain_lowest binary_nulls_low"
  by (simp add: no_domain_lowest_def binary_nulls_low_def Nil_less_string)

subsection \<open>Names are accepted by the search\<close>

lemma split_dots_not_Nil [simp]: "split_dots v \<noteq> []"
  by (induction v) (auto split: list.splits)

lemma split_dots_two:
  "split_dots v = l1 # l2 # rest \<Longrightarrow> \<exists>w. v = l1 @ CHR ''.'' # w \<and> split_dots w = l2 # rest"
proof (induction v arbitrary: l1)
  case Nil
  then show ?case by simp
next
  case (Cons c cs)
  show ?case
  proof (cases "c = CHR ''.''")
    case True
    with Cons.prems show ?thesis by auto
  next
    case False
    with Cons.prems obtain l where l: "split_dots cs = l # l2 # rest" "l1 = c # l"
      by (auto split: list.splits)
    from Cons.IH [OF l(1)] l(2) show ?thesis by auto
  qed
qed

lemma split_dots_first: "split_dots v = l # ls \<Longrightarrow> \<exists>w. v = l @ w"
proof (induction v arbitrary: l ls)
  case Nil
  then show ?case by simp
next
  case (Cons c cs)
  show ?case
  proof (cases "c = CHR ''.''")
    case True
    with Cons.prems show ?thesis by auto
  next
    case False
    with Cons.prems obtain l' where l: "split_dots cs = l' # ls" "l = c # l'"
      by (auto split: list.splits)
    from Cons.IH [OF l(1)] l(2) show ?thesis by auto
  qed
qed

lemma split_dots_chars:
  "c \<in> set v \<Longrightarrow> c = CHR ''.'' \<or> (\<exists>l\<in>set (split_dots v). c \<in> set l)"
proof (induction v)
  case Nil
  then show ?case by simp
next
  case (Cons d ds)
  then show ?case by (cases "split_dots ds") (auto split: if_splits)
qed

lemma dns_name_has_label_dot_label:
  assumes "dns_name v"
  shows "has_label_dot_label v"
proof -
  from assms obtain l1 l2 rest where sp: "split_dots v = l1 # l2 # rest"
    by (auto simp: dns_name_def numeral_2_eq_2 Suc_le_length_iff)
  with assms have lab: "dns_label l1" "dns_label l2" by (auto simp: dns_name_def)
  from split_dots_two [OF sp] obtain w where w: "v = l1 @ CHR ''.'' # w" "split_dots w = l2 # rest"
    by blast
  from split_dots_first [OF w(2)] obtain w' where w': "w = l2 @ w'" by blast
  from lab(1) obtain a l where l1: "l1 = a # l" "is_alnum a" "list_all is_alnum_hyphen l"
    by (cases l1) (auto simp: dns_label_def)
  from lab(2) obtain c l' where l2: "l2 = c # l'" "is_alnum_hyphen c"
    by (cases l2) (auto simp: dns_label_def)
  have "v = [] @ a # l @ CHR ''.'' # c # (l' @ w')" by (simp add: w w' l1 l2)
  with l1 l2 show ?thesis unfolding has_label_dot_label_def by blast
qed

lemma dns_name_no_whitespace:
  assumes "dns_name v" and "c \<in> set v"
  shows "c \<notin> set string_whitespace"
proof -
  from split_dots_chars [OF assms(2)] assms(1)
  have "c = CHR ''.'' \<or> is_alnum_hyphen c"
    by (auto simp: dns_name_def dns_label_def list_all_iff)
  then show ?thesis
    by (auto simp: string_whitespace_def is_alnum_hyphen_def is_alnum_def)
qed

lemma no_dot_no_match: "CHR ''.'' \<notin> set v \<Longrightarrow> \<not> has_label_dot_label v"
  by (auto simp: has_label_dot_label_def)

section \<open>The per-prefix resolution cache (\<^verbatim>\<open>urlresolvers.py\<close>)\<close>

subsection \<open>Rules for results\<close>

lemma and_then_returns [simp]: "and_then (returns a h) f = f a h"
  by (simp add: and_then_def returns_def)

lemma and_then_raises [simp]: "and_then (raises e h) f = raises e h"
  by (simp add: and_then_def raises_def)

lemma and_then_None [simp]: "and_then None f = None"
  by (simp add: and_then_def)

lemma returns_eq [simp]:
  "returns a h = Some (r, h') \<longleftrightarrow> r = Inr a \<and> h' = h"
  "returns a h \<noteq> None" "returns a h \<noteq> raises e h''"
  by (auto simp: returns_def raises_def)

lemma raises_eq [simp]:
  "raises e h = Some (r, h') \<longleftrightarrow> r = Inl e \<and> h' = h"
  "raises e h \<noteq> None"
  by (auto simp: raises_def)

lemma and_then_Some_Inr:
  "and_then m f = Some (Inr b, h') \<longleftrightarrow> (\<exists>a h1. m = Some (Inr a, h1) \<and> f a h1 = Some (Inr b, h'))"
  by (auto simp: and_then_def split: option.splits sum.splits prod.splits)

lemma and_then_Some:
  "and_then m f = Some (r, h') \<longleftrightarrow>
     (\<exists>e. m = Some (Inl e, h') \<and> r = Inl e) \<or> (\<exists>a h1. m = Some (Inr a, h1) \<and> f a h1 = Some (r, h'))"
  by (auto simp: and_then_def split: option.splits sum.splits prod.splits)

lemma and_then_not_None:
  "m \<noteq> None \<Longrightarrow> (\<And>a h1. m = Some (Inr a, h1) \<Longrightarrow> f a h1 \<noteq> None) \<Longrightarrow> and_then m f \<noteq> None"
  by (auto simp: and_then_def split: option.splits sum.splits prod.splits)

subsection \<open>Rules for dictionaries\<close>

lemma map_of_dict_set: "map_of (dict_set k v d) k' = (if k' = k then Some v else map_of d k')"
  by (induction d) auto

lemma has_key_dict_set [simp]: "has_key k (dict_set k v d)"
  by (simp add: has_key_def map_of_dict_set)

lemma getlist_appendlist:
  "getlist k (appendlist k' v d) = (if k = k' then getlist k d @ [v] else getlist k d)"
  by (induction d) (auto simp: getlist_def)

lemma getlist_Nil [simp]: "getlist k [] = []"
  by (simp add: getlist_def)

subsection \<open>The re-entrancy guard\<close>

lemma populate_reentrant:
  "populating (h self) \<Longrightarrow> populate normalise cs fuel h self = returns () h"
  by (cases fuel) (simp_all add: populate_with_def)

subsection \<open>What a build leaves alone\<close>

lemma stable_refl [simp]: "stable pp h h"
  by (simp add: stable_def)

lemma stable_trans: "stable pp h h1 \<Longrightarrow> stable pp h1 h2 \<Longrightarrow> stable pp h h2"
  by (simp add: stable_def)

lemma stable_callback_strs:
  "stable pp h (h(self := (h self)\<lparr>priv_callback_strs := X\<rparr>))"
  by (simp add: stable_def)

lemma stable_flag: "stable pp h (h(self := (h self)\<lparr>populating := True\<rparr>))"
  by (simp add: stable_def)

lemma keepsD: "keeps pp pop \<Longrightarrow> pop h r = Some (res, h') \<Longrightarrow> stable pp h h'"
  unfolding keeps_def by blast

lemma reverse_dict_with_stable:
  "keeps pp pop \<Longrightarrow> reverse_dict_with pop cs h r = Some (res, h') \<Longrightarrow> stable pp h h'"
  by (auto simp: reverse_dict_with_def Let_def and_then_Some dest: keepsD
      split: if_splits option.splits)

lemma namespace_dict_with_stable:
  "keeps pp pop \<Longrightarrow> namespace_dict_with pop cs h r = Some (res, h') \<Longrightarrow> stable pp h h'"
  by (auto simp: namespace_dict_with_def Let_def and_then_Some dest: keepsD
      split: if_splits option.splits)

lemma app_dict_with_stable:
  "keeps pp pop \<Longrightarrow> app_dict_with pop cs h r = Some (res, h') \<Longrightarrow> stable pp h h'"
  by (auto simp: app_dict_with_def Let_def and_then_Some dest: keepsD
      split: if_splits option.splits)

lemma visit_pattern_stable:
  "visit_pattern normalise self p acc h = Some (res, h') \<Longrightarrow> stable pp h h'"
  by (auto simp: visit_pattern_def Let_def stable_callback_strs split: prod.splits)

lemma and_then_stable:
  assumes "and_then m f = Some (res, h')"
    and "\<And>r h1. m = Some (r, h1) \<Longrightarrow> stable pp h h1"
    and "\<And>a h1. m = Some (Inr a, h1) \<Longrightarrow> f a h1 = Some (res, h') \<Longrightarrow> stable pp h1 h'"
  shows "stable pp h h'"
  using assms by (auto simp: and_then_Some intro: stable_trans)

lemma register_child_stable:
  assumes pop: "keeps pp pop"
    and v: "register_child pop normalise cs child acc h = Some (res, h')"
  shows "stable pp h h'"
proof -
  obtain lookups namespaces apps where acc: "acc = (lookups, namespaces, apps)"
    by (cases acc) auto
  show ?thesis
  proof (cases "truthy (namespace (h child))")
    case True
    with v show ?thesis by (simp add: register_child_def acc Let_def)
  next
    case False
    with v have "and_then (reverse_dict_with pop cs h child) (\<lambda>child_lookups h1.
           and_then (namespace_dict_with pop cs h1 child) (\<lambda>child_namespaces h2.
           and_then (app_dict_with pop cs h2 child) (\<lambda>child_apps h3.
             returns
               (merge_reverse normalise (pattern (regex cs (h child)))
                  (strip_anchor (pattern (regex cs (h child)))) (default_kwargs (h1 child))
                  child_lookups lookups,
                merge_namespaces (strip_anchor (pattern (regex cs (h child)))) child_namespaces
                  namespaces,
                merge_apps child_apps apps) h3))) = Some (res, h')"
      by (simp add: register_child_def acc Let_def)
    then show ?thesis
      apply (rule and_then_stable)
       apply (erule reverse_dict_with_stable [OF pop])
      apply (erule and_then_stable)
       apply (erule namespace_dict_with_stable [OF pop])
      apply (erule and_then_stable)
       apply (erule app_dict_with_stable [OF pop])
      apply simp
      done
  qed
qed

lemma visit_resolver_stable:
  assumes pop: "keeps pp pop"
    and v: "visit_resolver pop normalise cs self child acc h = Some (res, h')"
  shows "stable pp h h'"
  using v unfolding visit_resolver_def
  apply (rule and_then_stable)
   apply (erule register_child_stable [OF pop])
  apply (erule and_then_stable)
   apply (auto split: if_splits dest: keepsD [OF pop] intro: stable_callback_strs)
  done

lemma visit_stable:
  "keeps pp pop \<Longrightarrow> visit pop normalise cs self p acc h = Some (res, h') \<Longrightarrow> stable pp h h'"
  by (cases p) (auto dest: visit_pattern_stable visit_resolver_stable)

lemma walk_stable:
  "keeps pp pop \<Longrightarrow> walk pop normalise cs self ps acc h = Some (res, h') \<Longrightarrow> stable pp h h'"
proof (induction ps arbitrary: acc h)
  case Nil
  then show ?case by simp
next
  case (Cons p ps)
  from Cons.prems(2) show ?case
    by (simp, elim and_then_stable) (auto dest: visit_stable [OF Cons.prems(1)] Cons.IH [OF Cons.prems(1)])
qed

lemma populate_with_stable:
  assumes pop: "keeps (get_path_prefix cs) pop"
    and p: "populate_with pop normalise cs h self = Some (res, h')"
  shows "stable (get_path_prefix cs) h h'"
proof (cases "populating (h self)")
  case True
  with p show ?thesis by (simp add: populate_with_def)
next
  case False
  let ?h1 = "h(self := (h self)\<lparr>populating := True\<rparr>)"
  let ?pp = "get_path_prefix cs"
  from p False have
    "(\<exists>e. walk pop normalise cs self (rev (url_patterns (?h1 self))) ([], [], []) ?h1
           = Some (Inl e, h'))
     \<or> (\<exists>lookups namespaces apps h2.
          walk pop normalise cs self (rev (url_patterns (?h1 self))) ([], [], []) ?h1
            = Some (Inr (lookups, namespaces, apps), h2)
          \<and> h' = h2(self := (h2 self)\<lparr>
                     populating := False,
                     priv_reverse_dict := dict_set ?pp lookups (priv_reverse_dict (h2 self)),
                     priv_namespace_dict :=
                       dict_set ?pp namespaces (priv_namespace_dict (h2 self)),
                     priv_app_dict := dict_set ?pp apps (priv_app_dict (h2 self)),
                     priv_populated := True\<rparr>))"
    by (auto simp: populate_with_def Let_def and_then_Some split: prod.splits)
  then show ?thesis
  proof (elim disjE exE conjE)
    fix e
    assume "walk pop normalise cs self (rev (url_patterns (?h1 self))) ([], [], []) ?h1
           = Some (Inl e, h')"
    from walk_stable [OF pop this] stable_flag [of ?pp h self] show ?thesis
      by (rule stable_trans [rotated])
  next
    fix lookups namespaces apps h2
    assume w: "walk pop normalise cs self (rev (url_patterns (?h1 self))) ([], [], []) ?h1
            = Some (Inr (lookups, namespaces, apps), h2)"
      and h': "h' = h2(self := (h2 self)\<lparr>
                     populating := False,
                     priv_reverse_dict := dict_set ?pp lookups (priv_reverse_dict (h2 self)),
                     priv_namespace_dict :=
                       dict_set ?pp namespaces (priv_namespace_dict (h2 self)),
                     priv_app_dict := dict_set ?pp apps (priv_app_dict (h2 self)),
                     priv_populated := True\<rparr>)"
    have "stable ?pp h h2"
      using walk_stable [OF pop w] stable_flag [of ?pp h self] by (rule stable_trans [rotated])
    with False show ?thesis
      unfolding h' stable_def by (simp add: map_of_dict_set)
  qed
qed

lemma populate_keeps: "keeps (get_path_prefix cs) (populate normalise cs fuel)"
proof (induction fuel)
  case 0
  show ?case by (auto simp: keeps_def split: if_splits)
next
  case (Suc fuel)
  show ?case
    unfolding keeps_def
  proof (intro allI impI)
    fix h r res h'
    assume "populate normalise cs (Suc fuel) h r = Some (res, h')"
    then have "populate_with (populate normalise cs fuel) normalise cs h r = Some (res, h')"
      by simp
    from populate_with_stable [OF Suc this] show "stable (get_path_prefix cs) h h'" .
  qed
qed

lemmas populate_stable = keepsD [OF populate_keeps]

subsection \<open>Enough fuel\<close>

lemma stable_closed: "stable pp h h' \<Longrightarrow> closed A h \<Longrightarrow> closed A h'"
  by (simp add: stable_def closed_def)

lemma stable_idle: "stable pp h h' \<Longrightarrow> idle A h' \<subseteq> idle A h"
  by (auto simp: stable_def idle_def)

lemma answersD: "answers pp pop A h0 \<Longrightarrow> stable pp h0 h \<Longrightarrow> c \<in> A \<Longrightarrow> pop h c \<noteq> None"
  unfolding answers_def by blast

lemma reverse_dict_with_answers:
  assumes "answers pp pop A h0" "stable pp h0 h" "c \<in> A"
  shows "reverse_dict_with pop cs h c \<noteq> None"
  unfolding reverse_dict_with_def Let_def
  using answersD [OF assms]
  by (intro and_then_not_None) (auto split: option.splits)

lemma namespace_dict_with_answers:
  assumes "answers pp pop A h0" "stable pp h0 h" "c \<in> A"
  shows "namespace_dict_with pop cs h c \<noteq> None"
  unfolding namespace_dict_with_def Let_def
  using answersD [OF assms]
  by (intro and_then_not_None) (auto split: option.splits)

lemma app_dict_with_answers:
  assumes "answers pp pop A h0" "stable pp h0 h" "c \<in> A"
  shows "app_dict_with pop cs h c \<noteq> None"
  unfolding app_dict_with_def Let_def
  using answersD [OF assms]
  by (intro and_then_not_None) (auto split: option.splits)

lemma register_child_answers:
  assumes pop: "keeps pp pop" and ans: "answers pp pop A h0"
    and st: "stable pp h0 h" and c: "child \<in> A"
  shows "register_child pop normalise cs child acc h \<noteq> None"
proof -
  obtain lookups namespaces apps where acc: "acc = (lookups, namespaces, apps)"
    by (cases acc) auto
  show ?thesis
  proof (cases "truthy (namespace (h child))")
    case True
    then show ?thesis by (simp add: register_child_def acc Let_def)
  next
    case False
    have "and_then (reverse_dict_with pop cs h child) (\<lambda>child_lookups h1.
           and_then (namespace_dict_with pop cs h1 child) (\<lambda>child_namespaces h2.
           and_then (app_dict_with pop cs h2 child) (\<lambda>child_apps h3.
             returns
               (merge_reverse normalise (pattern (regex cs (h child)))
                  (strip_anchor (pattern (regex cs (h child)))) (default_kwargs (h1 child))
                  child_lookups lookups,
                merge_namespaces (strip_anchor (pattern (regex cs (h child)))) child_namespaces
                  namespaces,
                merge_apps child_apps apps) h3))) \<noteq> None"
    proof (rule and_then_not_None)
      show "reverse_dict_with pop cs h child \<noteq> None"
        by (rule reverse_dict_with_answers [OF ans st c])
    next
      fix a h1 assume "reverse_dict_with pop cs h child = Some (Inr a, h1)"
      from reverse_dict_with_stable [OF pop this] st have st1: "stable pp h0 h1"
        by (rule stable_trans [rotated])
      show "and_then (namespace_dict_with pop cs h1 child) (\<lambda>child_namespaces h2.
           and_then (app_dict_with pop cs h2 child) (\<lambda>child_apps h3.
             returns
               (merge_reverse normalise (pattern (regex cs (h child)))
                  (strip_anchor (pattern (regex cs (h child)))) (default_kwargs (h1 child))
                  a lookups,
                merge_namespaces (strip_anchor (pattern (regex cs (h child)))) child_namespaces
                  namespaces,
                merge_apps child_apps apps) h3)) \<noteq> None"
      proof (rule and_then_not_None)
        show "namespace_dict_with pop cs h1 child \<noteq> None"
          by (rule namespace_dict_with_answers [OF ans st1 c])
      next
        fix b h2 assume "namespace_dict_with pop cs h1 child = Some (Inr b, h2)"
        from namespace_dict_with_stable [OF pop this] st1 have st2: "stable pp h0 h2"
          by (rule stable_trans [rotated])
        show "and_then (app_dict_with pop cs h2 child) (\<lambda>child_apps h3.
             returns
               (merge_reverse normalise (pattern (regex cs (h child)))
                  (strip_anchor (pattern (regex cs (h child)))) (default_kwargs (h1 child))
                  a lookups,
                merge_namespaces (strip_anchor (pattern (regex cs (h child)))) b
                  namespaces,
                merge_apps child_apps apps) h3) \<noteq> None"
          by (rule and_then_not_None)
             (simp_all add: app_dict_with_answers [OF ans st2 c])
      qed
    qed
    with False show ?thesis by (simp add: register_child_def acc Let_def)
  qed
qed

lemma visit_resolver_answers:
  assumes pop: "keeps pp pop" and ans: "answers pp pop A h0"
    and st: "stable pp h0 h" and c: "child \<in> A"
  shows "visit_resolver pop normalise cs self child acc h \<noteq> None"
  unfolding visit_resolver_def
proof (rule and_then_not_None)
  show "register_child pop normalise cs child acc h \<noteq> None"
    by (rule register_child_answers [OF pop ans st c])
next
  fix a h4 assume "register_child pop normalise cs child acc h = Some (Inr a, h4)"
  from register_child_stable [OF pop this] st have "stable pp h0 h4"
    by (rule stable_trans [rotated])
  from answersD [OF ans this c]
  show "and_then (if \<not> populating (h4 child) then pop h4 child else returns () h4)
          (\<lambda>_ h5. returns a
             (h5(self := (h5 self)\<lparr>priv_callback_strs :=
                   priv_callback_strs (h5 self) \<union> priv_callback_strs (h5 child)\<rparr>))) \<noteq> None"
    by (intro and_then_not_None) simp_all
qed

lemma walk_answers:
  assumes pop: "keeps pp pop" and ans: "answers pp pop A h0"
  shows "stable pp h0 h \<Longrightarrow> (\<forall>c. URLResolver c \<in> set ps \<longrightarrow> c \<in> A) \<Longrightarrow>
     walk pop normalise cs self ps acc h \<noteq> None"
proof (induction ps arbitrary: acc h)
  case Nil
  show ?case by simp
next
  case (Cons p ps)
  have v: "visit pop normalise cs self p acc h \<noteq> None"
  proof (cases p)
    case (URLPattern u)
    then show ?thesis by (cases acc) (simp add: visit_pattern_def Let_def)
  next
    case (URLResolver c)
    with Cons.prems have "c \<in> A" by simp
    from visit_resolver_answers [OF pop ans Cons.prems(1) this] URLResolver
    show ?thesis by simp
  qed
  have "and_then (visit pop normalise cs self p acc h) (walk pop normalise cs self ps) \<noteq> None"
  proof (rule and_then_not_None [OF v])
    fix a h1 assume "visit pop normalise cs self p acc h = Some (Inr a, h1)"
    from visit_stable [OF pop this] Cons.prems(1) have "stable pp h0 h1"
      by (rule stable_trans [rotated])
    with Cons.IH Cons.prems(2) show "walk pop normalise cs self ps a h1 \<noteq> None" by simp
  qed
  then show ?case by simp
qed

lemma populate_answers:
  assumes A: "finite A"
  shows "closed A h \<Longrightarrow> self \<in> A \<Longrightarrow> card (idle A h) \<le> fuel \<Longrightarrow>
     populate normalise cs fuel h self \<noteq> None"
proof (induction fuel arbitrary: h self)
  case 0
  have "finite (idle A h)" using A by (simp add: idle_def)
  with 0 have "idle A h = {}" by simp
  with 0 have "populating (h self)" by (auto simp: idle_def)
  then show ?case by simp
next
  case (Suc fuel)
  let ?pp = "get_path_prefix cs"
  let ?pop = "populate normalise cs fuel"
  show ?case
  proof (cases "populating (h self)")
    case True
    then show ?thesis by (simp add: populate_with_def)
  next
    case False
    let ?h1 = "h(self := (h self)\<lparr>populating := True\<rparr>)"
    have fin: "finite (idle A h)" using A by (simp add: idle_def)
    have "idle A ?h1 = idle A h - {self}" by (auto simp: idle_def)
    moreover have "self \<in> idle A h" using False Suc.prems by (simp add: idle_def)
    ultimately have card1: "card (idle A ?h1) \<le> fuel"
      using Suc.prems(3) fin by simp
    have cl1: "closed A ?h1" using Suc.prems(1) by (simp add: closed_def)
    have ans: "answers ?pp ?pop A ?h1"
      unfolding answers_def
    proof (intro allI impI)
      fix h' c assume st: "stable ?pp ?h1 h'" and c: "c \<in> A"
      have "card (idle A h') \<le> card (idle A ?h1)"
        by (rule card_mono [OF _ stable_idle [OF st]]) (simp add: idle_def A)
      with card1 have "card (idle A h') \<le> fuel" by simp
      from Suc.IH [OF stable_closed [OF st cl1] c this]
      show "?pop h' c \<noteq> None" .
    qed
    have "\<forall>c. URLResolver c \<in> set (rev (url_patterns (?h1 self))) \<longrightarrow> c \<in> A"
      using Suc.prems(1,2) by (simp add: closed_def)
    from walk_answers [OF populate_keeps ans stable_refl this]
    have "walk ?pop normalise cs self (rev (url_patterns (?h1 self))) ([], [], []) ?h1 \<noteq> None" .
    then obtain r h2 where
      "walk ?pop normalise cs self (rev (url_patterns (?h1 self))) ([], [], []) ?h1 = Some (r, h2)"
      by auto
    then show ?thesis
      using False
      by (cases r) (auto simp: populate_with_def Let_def and_then_def returns_def split: prod.splits)
  qed
qed

subsection \<open>What a build that returns, and one that raises, leaves behind\<close>

lemma populate_stores:
  assumes "\<not> populating (h self)"
    and "populate normalise cs fuel h self = Some (Inr (), h')"
  shows "\<not> populating (h' self) \<and> has_key (get_path_prefix cs) (priv_reverse_dict (h' self))
    \<and> has_key (get_path_prefix cs) (priv_namespace_dict (h' self))
    \<and> has_key (get_path_prefix cs) (priv_app_dict (h' self))"
proof (cases fuel)
  case 0
  with assms show ?thesis by simp
next
  case (Suc n)
  with assms show ?thesis
    by (auto simp: populate_with_def Let_def and_then_Some_Inr split: prod.splits)
qed

lemma populate_raises_busy:
  assumes "\<not> populating (h self)"
    and "populate normalise cs fuel h self = Some (Inl e, h')"
  shows "populating (h' self)"
proof (cases fuel)
  case 0
  with assms show ?thesis by simp
next
  case (Suc n)
  let ?h1 = "h(self := (h self)\<lparr>populating := True\<rparr>)"
  from assms Suc have
    "walk (populate normalise cs n) normalise cs self (rev (url_patterns (?h1 self)))
       ([], [], []) ?h1 = Some (Inl e, h')"
    by (auto simp: populate_with_def Let_def and_then_Some split: prod.splits)
  from walk_stable [OF populate_keeps this] show ?thesis
    by (simp add: stable_def)
qed

subsection \<open>The order of the entries\<close>

lemma extends_refl [simp]: "extends k d d"
  by (simp add: extends_def)

lemma extends_trans: "extends k d d1 \<Longrightarrow> extends k d1 d2 \<Longrightarrow> extends k d d2"
  by (auto simp: extends_def)

lemma extends_member: "extends k d d' \<Longrightarrow> x \<in> set (getlist k d) \<Longrightarrow> x \<in> set (getlist k d')"
  by (auto simp: extends_def)

lemma extends_appendlist [simp]: "extends k d (appendlist k' v d)"
  by (simp add: extends_def getlist_appendlist)

lemma extends_foldl:
  "(\<And>d x. extends k d (f d x)) \<Longrightarrow> extends k d (foldl f d xs)"
proof (induction xs arbitrary: d)
  case Nil
  show ?case by simp
next
  case (Cons x xs)
  have "extends k d (f d x)" by (rule Cons.prems)
  moreover have "extends k (f d x) (foldl f (f d x) xs)" by (rule Cons.IH) (rule Cons.prems)
  ultimately show ?case by (auto intro: extends_trans)
qed

lemma extends_merge_reverse:
  "extends k lookups (merge_reverse normalise parent_pat p_pattern kwargs child lookups)"
  unfolding merge_reverse_def
  by (intro extends_foldl) (auto split: prod.splits)

lemma visit_pattern_getlist:
  assumes "visit_pattern normalise self p acc h = Some (Inr acc', h')"
  shows "getlist (Name n) (fst acc')
           = getlist (Name n) (fst acc) @ (if pat_name p = Some n then [leaf_entry normalise p] else [])"
    and "getlist (Callback c) (fst acc')
           = getlist (Callback c) (fst acc)
               @ (if pat_callback p = c then [leaf_entry normalise p] else [])"
  using assms
  by (auto simp: visit_pattern_def Let_def leaf_entry_def getlist_appendlist
      split: prod.splits option.splits)

lemma visit_pattern_extends:
  "visit_pattern normalise self p acc h = Some (Inr acc', h') \<Longrightarrow> extends k (fst acc) (fst acc')"
  by (cases k) (auto simp: extends_def visit_pattern_getlist)

lemma register_child_extends:
  assumes "register_child pop normalise cs child acc h = Some (Inr acc', h')"
  shows "extends k (fst acc) (fst acc')"
proof -
  obtain lookups namespaces apps where acc: "acc = (lookups, namespaces, apps)"
    by (cases acc) auto
  from assms show ?thesis
    unfolding register_child_def acc
    by (auto simp: Let_def and_then_Some_Inr extends_merge_reverse split: if_splits)
qed

lemma visit_resolver_extends:
  assumes "visit_resolver pop normalise cs self child acc h = Some (Inr acc', h')"
  shows "extends k (fst acc) (fst acc')"
  using assms unfolding visit_resolver_def
  by (auto simp: and_then_Some_Inr dest: register_child_extends)

lemma visit_extends:
  "visit pop normalise cs self p acc h = Some (Inr acc', h') \<Longrightarrow> extends k (fst acc) (fst acc')"
  by (cases p) (auto dest: visit_pattern_extends visit_resolver_extends)

lemma walk_extends:
  "walk pop normalise cs self ps acc h = Some (Inr acc', h') \<Longrightarrow> extends k (fst acc) (fst acc')"
proof (induction ps arbitrary: acc h)
  case Nil
  then show ?case by simp
next
  case (Cons p ps)
  then show ?case
    by (auto simp: and_then_Some_Inr dest!: visit_extends [where k = k] intro: extends_trans)
qed

lemma walk_append:
  "walk pop normalise cs self (xs @ ys) acc h
     = and_then (walk pop normalise cs self xs acc h) (walk pop normalise cs self ys)"
proof (induction xs arbitrary: acc h)
  case Nil
  show ?case by simp
next
  case (Cons x xs)
  show ?case
    by (cases "visit pop normalise cs self x acc h")
       (auto simp: Cons.IH and_then_def split: sum.splits)
qed

lemma populate_table:
  assumes "\<not> populating (h self)"
    and "populate normalise cs fuel h self = Some (Inr (), h')"
  shows "\<exists>lookups namespaces apps h2.
           walk (populate normalise cs (fuel - 1)) normalise cs self (rev (url_patterns (h self)))
               ([], [], []) (h(self := (h self)\<lparr>populating := True\<rparr>))
             = Some (Inr (lookups, namespaces, apps), h2)
           \<and> map_of (priv_reverse_dict (h' self)) (get_path_prefix cs) = Some lookups"
proof (cases fuel)
  case 0
  with assms show ?thesis by simp
next
  case (Suc m)
  with assms show ?thesis
    by (auto simp: populate_with_def Let_def and_then_Some_Inr map_of_dict_set split: prod.splits)
qed

text \<open>The definitions that a concrete run unfolds.\<close>

lemmas eval_defs = populate_with_def visit_pattern_def visit_resolver_def register_child_def
  reverse_dict_with_def namespace_dict_with_def app_dict_with_def and_then_def returns_def
  raises_def has_key_def get_path_prefix_def regex_def site_regex_def merge_reverse_def
  merge_namespaces_def merge_apps_def getlist_def dict_update_def new_resolver_def
  outcome_def heap_after_def site_heap_def acme_def beta_def user_leaf_def me_leaf_def
  items_leaf_def Let_def

subsection \<open>What a pattern graph declares\<close>

lemma declared_same_graph:
  assumes "declared cs h r k pat"
    and "\<And>x. url_patterns (h' x) = url_patterns (h x)"
    and "\<And>x. namespace (h' x) = namespace (h x)"
    and "\<And>x. cls (h' x) = cls (h x)"
    and "\<And>x. init_regex (h' x) = init_regex (h x)"
  shows "declared cs h' r k pat"
  using assms(1)
proof (induction rule: declared.induct)
  case (by_callback p r)
  then show ?case by (simp add: assms(2) [symmetric] declared.by_callback)
next
  case (by_name p r n)
  then show ?case by (simp add: assms(2) [symmetric] declared.by_name)
next
  case (by_include c r k pat)
  have "regex cs (h' c) = regex cs (h c)"
    by (simp add: regex_def assms split: resolver_class.splits)
  with declared.by_include [of c h' r cs k pat] by_include show ?case
    by (simp add: assms)
qed

lemma declared_stable: "stable pp h h' \<Longrightarrow> declared cs h' r k pat = declared cs h r k pat"
  by (auto simp: stable_def elim!: declared_same_graph)

lemma covers_stable: "stable pp h h' \<Longrightarrow> covers cs h' r t = covers cs h r t"
  by (simp add: covers_def declared_stable)

lemma has_entry_extends: "extends k d d' \<Longrightarrow> has_entry d k pat \<Longrightarrow> has_entry d' k pat"
  by (auto simp: extends_def has_entry_def)

lemma has_entry_appendlist: "has_entry (appendlist k (b, pat, dd) d) k pat"
  by (simp add: has_entry_def getlist_appendlist)

lemma foldl_reaches:
  assumes "x \<in> set xs" and "\<And>d. P (f d x)" and "\<And>d y. P d \<Longrightarrow> P (f d y)"
  shows "P (foldl f d xs)"
  using assms(1)
proof (induction xs arbitrary: d)
  case Nil
  then show ?case by simp
next
  case (Cons y ys)
  have keep: "\<And>d. P d \<Longrightarrow> P (foldl f d ys)"
  proof -
    fix d show "P d \<Longrightarrow> P (foldl f d ys)"
      by (induction ys arbitrary: d) (auto intro: assms(3))
  qed
  show ?case
  proof (cases "x = y")
    case True
    then show ?thesis using keep [OF assms(2)] by simp
  next
    case False
    with Cons show ?thesis by simp
  qed
qed

lemma merge_reverse_has_entry:
  assumes "has_entry child k pat"
  shows "has_entry (merge_reverse normalise parent_pat p_pattern kwargs child lookups) k
           (p_pattern @ pat)"
proof -
  from assms obtain b dd where e: "(b, pat, dd) \<in> set (getlist k child)"
    by (auto simp: has_entry_def)
  then obtain vs where "map_of child k = Some vs"
    by (cases "map_of child k") (auto simp: getlist_def)
  then have "(k, vs) \<in> set child" by (rule map_of_SomeD)
  then have k: "k \<in> set (map fst child)" by force
  let ?g = "\<lambda>name lookups (u :: 'a \<times> string \<times> (string \<times> pyval) list).
      case u of (_, pat, defaults) \<Rightarrow>
        appendlist name
          (normalise (parent_pat @ pat), p_pattern @ pat, dict_update defaults kwargs) lookups"
  let ?P = "\<lambda>d. has_entry d k (p_pattern @ pat)"
  have ext: "\<And>name d u. extends k d (?g name d u)"
    by (auto split: prod.splits)
  have inner: "\<And>d. ?P (foldl (?g k) d (getlist k child))"
    by (rule foldl_reaches [OF e])
       (auto simp: has_entry_appendlist intro: has_entry_extends [OF extends_appendlist])
  have keep: "\<And>d name. ?P d \<Longrightarrow> ?P (foldl (?g name) d (getlist name child))"
    by (rule has_entry_extends [OF extends_foldl]) (auto split: prod.splits)
  show ?thesis
    unfolding merge_reverse_def
    by (rule foldl_reaches [OF k]) (auto intro: inner keep)
qed

subsection \<open>Every cached table covers what its resolver declares\<close>

lemma preservesD:
  "preserves cs pop \<Longrightarrow> good_cache cs h \<Longrightarrow> pop h r = Some (res, h') \<Longrightarrow> good_cache cs h'"
  unfolding preserves_def by blast

lemma good_cache_same_tables:
  assumes "good_cache cs h" and "stable pp h h'"
    and "\<And>r. map_of (priv_reverse_dict (h' r)) (get_path_prefix cs)
              = map_of (priv_reverse_dict (h r)) (get_path_prefix cs)"
  shows "good_cache cs h'"
  using assms(1) unfolding good_cache_def
  by (simp add: assms(3) covers_stable [OF assms(2)])

lemma good_cache_callback_strs:
  "good_cache cs h \<Longrightarrow> good_cache cs (h(self := (h self)\<lparr>priv_callback_strs := X\<rparr>))"
  by (erule good_cache_same_tables [OF _ stable_callback_strs [of "get_path_prefix cs"]]) simp

lemma good_cache_flag:
  "good_cache cs h \<Longrightarrow> good_cache cs (h(self := (h self)\<lparr>populating := True\<rparr>))"
  by (erule good_cache_same_tables [OF _ stable_flag [of "get_path_prefix cs"]]) simp

lemma reverse_dict_with_good:
  assumes "preserves cs pop" and "good_cache cs h"
    and "reverse_dict_with pop cs h c = Some (res, h')"
  shows "good_cache cs h' \<and> (\<forall>t. res = Inr t \<longrightarrow> covers cs h' c t)"
proof -
  from assms(3) obtain h1 where
    h1: "(if \<not> has_key (get_path_prefix cs) (priv_reverse_dict (h c)) then pop h c
          else returns () h) = Some (Inr (), h1) \<and> h' = h1
         \<and> (\<forall>t. res = Inr t \<longrightarrow> map_of (priv_reverse_dict (h1 c)) (get_path_prefix cs) = Some t)
       \<or> (\<exists>e. (if \<not> has_key (get_path_prefix cs) (priv_reverse_dict (h c)) then pop h c
          else returns () h) = Some (Inl e, h') \<and> res = Inl e)"
    by (auto simp: reverse_dict_with_def Let_def and_then_Some split: option.splits)
  then have g: "good_cache cs h'"
    using assms(1,2) by (auto split: if_splits dest: preservesD)
  moreover from h1 have "\<forall>t. res = Inr t \<longrightarrow> map_of (priv_reverse_dict (h' c)) (get_path_prefix cs) = Some t"
    by auto
  ultimately show ?thesis by (auto simp: good_cache_def)
qed

lemma namespace_dict_with_good:
  assumes "preserves cs pop" and "good_cache cs h"
    and "namespace_dict_with pop cs h c = Some (res, h')"
  shows "good_cache cs h'"
  using assms
  by (auto simp: namespace_dict_with_def Let_def and_then_Some split: option.splits if_splits
      dest: preservesD)

lemma app_dict_with_good:
  assumes "preserves cs pop" and "good_cache cs h"
    and "app_dict_with pop cs h c = Some (res, h')"
  shows "good_cache cs h'"
  using assms
  by (auto simp: app_dict_with_def Let_def and_then_Some split: option.splits if_splits
      dest: preservesD)

lemma node_done_extends:
  "(\<And>k. extends k t t') \<Longrightarrow> node_done cs h t nd \<Longrightarrow> node_done cs h t' nd"
  by (cases nd) (auto intro: has_entry_extends)

lemma regex_stable: "stable pp h h' \<Longrightarrow> regex cs (h' c) = regex cs (h c)"
  by (simp add: stable_def regex_def split: resolver_class.splits)

lemma register_child_good:
  assumes keeps: "keeps (get_path_prefix cs) pop" and pres: "preserves cs pop"
    and g: "good_cache cs h"
    and r: "register_child pop normalise cs child acc h = Some (res, h')"
  shows "good_cache cs h' \<and> (\<forall>acc'. res = Inr acc' \<longrightarrow> node_done cs h (fst acc') (URLResolver child))"
proof -
  obtain lookups namespaces apps where acc: "acc = (lookups, namespaces, apps)"
    by (cases acc) auto
  show ?thesis
  proof (cases "truthy (namespace (h child))")
    case True
    with r g show ?thesis by (auto simp: register_child_def acc Let_def)
  next
    case False
    let ?pat = "pattern (regex cs (h child))"
    from r False have r': "and_then (reverse_dict_with pop cs h child) (\<lambda>child_lookups h1.
           and_then (namespace_dict_with pop cs h1 child) (\<lambda>child_namespaces h2.
           and_then (app_dict_with pop cs h2 child) (\<lambda>child_apps h3.
             returns
               (merge_reverse normalise ?pat (strip_anchor ?pat) (default_kwargs (h1 child))
                  child_lookups lookups,
                merge_namespaces (strip_anchor ?pat) child_namespaces namespaces,
                merge_apps child_apps apps) h3))) = Some (res, h')"
      by (simp add: register_child_def acc Let_def)
    show ?thesis
    proof (cases "reverse_dict_with pop cs h child")
      case None
      with r' show ?thesis by simp
    next
      case (Some a)
      then obtain x h1 where rd: "reverse_dict_with pop cs h child = Some (x, h1)"
        by (cases a) auto
      note g1 = reverse_dict_with_good [OF pres g rd]
      show ?thesis
      proof (cases x)
        case (Inl e)
        with r' rd g1 show ?thesis by (auto simp: and_then_def raises_def)
      next
        case (Inr t)
        from g1 Inr have "covers cs h1 child t" by simp
        with reverse_dict_with_stable [OF keeps rd] have cov: "covers cs h child t"
          by (simp add: covers_stable)
        from r' rd Inr have r2: "and_then (namespace_dict_with pop cs h1 child) (\<lambda>child_namespaces h2.
           and_then (app_dict_with pop cs h2 child) (\<lambda>child_apps h3.
             returns
               (merge_reverse normalise ?pat (strip_anchor ?pat) (default_kwargs (h1 child))
                  t lookups,
                merge_namespaces (strip_anchor ?pat) child_namespaces namespaces,
                merge_apps child_apps apps) h3)) = Some (res, h')"
          by (simp add: and_then_def)
        have covered: "node_done cs h
            (merge_reverse normalise ?pat (strip_anchor ?pat) (default_kwargs (h1 child)) t lookups)
            (URLResolver child)"
          using cov by (auto simp: covers_def intro: merge_reverse_has_entry)
        from r2 g1 show ?thesis
          using covered
          by (auto simp: and_then_Some
              dest: namespace_dict_with_good [OF pres] app_dict_with_good [OF pres])
      qed
    qed
  qed
qed

lemma visit_resolver_good:
  assumes keeps: "keeps (get_path_prefix cs) pop" and pres: "preserves cs pop"
    and g: "good_cache cs h"
    and v: "visit_resolver pop normalise cs self child acc h = Some (res, h')"
  shows "good_cache cs h' \<and> (\<forall>acc'. res = Inr acc' \<longrightarrow> node_done cs h (fst acc') (URLResolver child))"
proof -
  note rc = register_child_good [OF keeps pres g]
  from v show ?thesis
    unfolding visit_resolver_def
    by (auto simp: and_then_Some split: if_splits
        dest!: rc dest: preservesD [OF pres] intro: good_cache_callback_strs)
qed

lemma visit_pattern_good:
  assumes g: "good_cache cs h"
    and v: "visit_pattern normalise self p acc h = Some (res, h')"
  shows "good_cache cs h' \<and> (\<forall>acc'. res = Inr acc' \<longrightarrow> node_done cs h0 (fst acc') (URLPattern p))"
  using assms
  by (auto simp: visit_pattern_def Let_def has_entry_def getlist_appendlist
      intro: good_cache_callback_strs split: prod.splits option.splits)

lemma visit_good:
  assumes keeps: "keeps (get_path_prefix cs) pop" and pres: "preserves cs pop"
    and g: "good_cache cs h"
    and v: "visit pop normalise cs self nd acc h = Some (res, h')"
  shows "good_cache cs h' \<and> (\<forall>acc'. res = Inr acc' \<longrightarrow> node_done cs h (fst acc') nd)"
  using v visit_pattern_good [OF g] visit_resolver_good [OF keeps pres g]
  by (cases nd) auto

lemma node_done_stable:
  "stable pp h h' \<Longrightarrow> node_done cs h' t nd = node_done cs h t nd"
  by (cases nd) (auto simp: declared_stable regex_stable, auto simp: stable_def)

lemma walk_good:
  assumes keeps: "keeps (get_path_prefix cs) pop" and pres: "preserves cs pop"
  shows "good_cache cs h \<Longrightarrow> walk pop normalise cs self ps acc h = Some (res, h') \<Longrightarrow>
     good_cache cs h' \<and> (\<forall>acc'. res = Inr acc' \<longrightarrow> (\<forall>nd\<in>set ps. node_done cs h (fst acc') nd))"
proof (induction ps arbitrary: acc h)
  case Nil
  then show ?case by simp
next
  case (Cons p ps)
  from Cons.prems(2) consider
    (raised) e where "visit pop normalise cs self p acc h = Some (Inl e, h')" "res = Inl e"
  | (went_on) a h1 where "visit pop normalise cs self p acc h = Some (Inr a, h1)"
      "walk pop normalise cs self ps a h1 = Some (res, h')"
    by (auto simp: and_then_Some)
  then show ?case
  proof cases
    case raised
    with visit_good [OF keeps pres Cons.prems(1) raised(1)] show ?thesis by simp
  next
    case went_on
    from visit_good [OF keeps pres Cons.prems(1) went_on(1)]
    have g1: "good_cache cs h1" and d: "node_done cs h (fst a) p" by simp_all
    from visit_stable [OF keeps went_on(1)] have st: "stable (get_path_prefix cs) h h1" .
    from Cons.IH [OF g1 went_on(2)]
    have g': "good_cache cs h'"
      and rest: "\<forall>acc'. res = Inr acc' \<longrightarrow> (\<forall>nd\<in>set ps. node_done cs h1 (fst acc') nd)"
      by simp_all
    have "\<forall>acc'. res = Inr acc' \<longrightarrow> node_done cs h (fst acc') p"
    proof (intro allI impI)
      fix acc' assume "res = Inr acc'"
      with went_on(2) have "\<And>k. extends k (fst a) (fst acc')"
        by (auto intro: walk_extends)
      from node_done_extends [OF this d] show "node_done cs h (fst acc') p" .
    qed
    with g' rest show ?thesis by (simp add: node_done_stable [OF st])
  qed
qed

lemma covers_from_nodes:
  assumes "\<forall>nd\<in>set (url_patterns (h self)). node_done cs h table nd"
  shows "covers cs h self table"
  unfolding covers_def
proof (intro allI impI)
  fix k pat assume "declared cs h self k pat"
  then show "has_entry table k pat"
  proof (cases rule: declared.cases)
    case (by_callback p)
    with assms have "node_done cs h table (URLPattern p)" by blast
    with by_callback show ?thesis by simp
  next
    case (by_name p n)
    with assms have "node_done cs h table (URLPattern p)" by blast
    with by_name show ?thesis by simp
  next
    case (by_include c pat')
    with assms have "node_done cs h table (URLResolver c)" by blast
    with by_include show ?thesis by simp
  qed
qed

lemma populate_with_good:
  assumes keeps: "keeps (get_path_prefix cs) pop" and pres: "preserves cs pop"
    and g: "good_cache cs h"
    and p: "populate_with pop normalise cs h self = Some (res, h')"
  shows "good_cache cs h'"
proof (cases "populating (h self)")
  case True
  with p g show ?thesis by (simp add: populate_with_def)
next
  case False
  let ?pp = "get_path_prefix cs"
  let ?h1 = "h(self := (h self)\<lparr>populating := True\<rparr>)"
  have st1: "stable ?pp h ?h1" by (rule stable_flag)
  have g1: "good_cache cs ?h1" by (rule good_cache_flag [OF g])
  from p False consider
    (raised) e where
      "walk pop normalise cs self (rev (url_patterns (?h1 self))) ([], [], []) ?h1
         = Some (Inl e, h')"
  | (stored) lookups namespaces apps h2 where
      "walk pop normalise cs self (rev (url_patterns (?h1 self))) ([], [], []) ?h1
         = Some (Inr (lookups, namespaces, apps), h2)"
      "h' = h2(self := (h2 self)\<lparr>
                     populating := False,
                     priv_reverse_dict := dict_set ?pp lookups (priv_reverse_dict (h2 self)),
                     priv_namespace_dict := dict_set ?pp namespaces (priv_namespace_dict (h2 self)),
                     priv_app_dict := dict_set ?pp apps (priv_app_dict (h2 self)),
                     priv_populated := True\<rparr>)"
    by (auto simp: populate_with_def Let_def and_then_Some split: prod.splits)
  then show ?thesis
  proof cases
    case raised
    from walk_good [OF keeps pres g1 raised] show ?thesis by simp
  next
    case stored
    from walk_good [OF keeps pres g1 stored(1)]
    have g2: "good_cache cs h2"
      and nodes: "\<forall>nd\<in>set (rev (url_patterns (?h1 self))). node_done cs ?h1 lookups nd"
      by simp_all
    from walk_stable [OF keeps stored(1)] have st2: "stable ?pp ?h1 h2" .
    have st: "stable ?pp h h'" by (rule populate_with_stable [OF keeps p])
    have sth2: "stable ?pp h h2" by (rule stable_trans [OF st1 st2])
    have "\<forall>nd\<in>set (url_patterns (h self)). node_done cs h lookups nd"
      using nodes by (simp add: node_done_stable [OF st1])
    then have cov: "covers cs h self lookups" by (rule covers_from_nodes)
    show ?thesis
      unfolding good_cache_def
    proof (intro allI impI)
      fix r table
      assume t: "map_of (priv_reverse_dict (h' r)) ?pp = Some table"
      show "covers cs h' r table"
      proof (cases "r = self")
        case True
        with t stored(2) have "table = lookups" by (simp add: map_of_dict_set)
        with cov True show ?thesis by (simp add: covers_stable [OF st])
      next
        case False
        with t stored(2) have "map_of (priv_reverse_dict (h2 r)) ?pp = Some table" by simp
        with g2 have "covers cs h2 r table" by (simp add: good_cache_def)
        then show ?thesis by (simp add: covers_stable [OF st] covers_stable [OF sth2])
      qed
    qed
  qed
qed

lemma populate_preserves: "preserves cs (populate normalise cs fuel)"
proof (induction fuel)
  case 0
  show ?case by (auto simp: preserves_def split: if_splits)
next
  case (Suc fuel)
  show ?case
    unfolding preserves_def
  proof (intro allI impI)
    fix h r res h'
    assume g: "good_cache cs h" and "populate normalise cs (Suc fuel) h r = Some (res, h')"
    then have "populate_with (populate normalise cs fuel) normalise cs h r = Some (res, h')"
      by simp
    from populate_with_good [OF populate_keeps Suc g this] show "good_cache cs h'" .
  qed
qed

lemma populate_covers:
  assumes "good_cache cs h" and "\<not> populating (h self)"
    and "populate normalise cs fuel h self = Some (Inr (), h')"
  shows "\<exists>table. map_of (priv_reverse_dict (h' self)) (get_path_prefix cs) = Some table
           \<and> covers cs h self table"
proof -
  from populate_stores [OF assms(2,3)] obtain table where
    t: "map_of (priv_reverse_dict (h' self)) (get_path_prefix cs) = Some table"
    by (auto simp: has_key_def)
  from preservesD [OF populate_preserves assms(1,3)] have "good_cache cs h'" .
  with t have "covers cs h' self table" by (simp add: good_cache_def)
  with populate_stable [OF assms(3)] t show ?thesis by (auto simp: covers_stable)
qed

subsection \<open>The entries of the leaves\<close>

lemma walk_leaf_member:
  assumes "URLPattern p \<in> set ps"
    and w: "walk pop normalise cs self ps acc h = Some (Inr acc', h')"
  shows "leaf_entry normalise p \<in> set (getlist (Callback (pat_callback p)) (fst acc'))
    \<and> (\<forall>n. pat_name p = Some n \<longrightarrow> leaf_entry normalise p \<in> set (getlist (Name n) (fst acc')))"
proof -
  from assms(1) obtain xs ys where ps: "ps = xs @ URLPattern p # ys"
    by (auto dest: split_list)
  from w obtain a1 h1 a2 h2 where
    v: "visit_pattern normalise self p a1 h1 = Some (Inr a2, h2)"
    and w2: "walk pop normalise cs self ys a2 h2 = Some (Inr acc', h')"
    unfolding ps by (auto simp: walk_append and_then_Some_Inr)
  have "leaf_entry normalise p \<in> set (getlist (Callback (pat_callback p)) (fst a2))"
    by (simp add: visit_pattern_getlist(2) [OF v])
  moreover have "\<forall>n. pat_name p = Some n \<longrightarrow> leaf_entry normalise p \<in> set (getlist (Name n) (fst a2))"
    by (simp add: visit_pattern_getlist(1) [OF v])
  moreover have "\<And>k x. x \<in> set (getlist k (fst a2)) \<Longrightarrow> x \<in> set (getlist k (fst acc'))"
    by (rule extends_member [OF walk_extends [OF w2]])
  ultimately show ?thesis by blast
qed

lemma populate_leaf_entries:
  assumes "\<not> populating (h self)"
    and "populate normalise cs fuel h self = Some (Inr (), h')"
    and "map_of (priv_reverse_dict (h' self)) (get_path_prefix cs) = Some table"
    and "URLPattern p \<in> set (url_patterns (h self))"
  shows "leaf_entry normalise p \<in> set (getlist (Callback (pat_callback p)) table)
    \<and> (\<forall>n. pat_name p = Some n \<longrightarrow> leaf_entry normalise p \<in> set (getlist (Name n) table))"
proof -
  from populate_table [OF assms(1,2)] assms(3) obtain namespaces apps h2 where
    w: "walk (populate normalise cs (fuel - 1)) normalise cs self (rev (url_patterns (h self)))
               ([], [], []) (h(self := (h self)\<lparr>populating := True\<rparr>))
             = Some (Inr (table, namespaces, apps), h2)"
    by auto
  from assms(4) have "URLPattern p \<in> set (rev (url_patterns (h self)))" by simp
  from walk_leaf_member [OF this w] show ?thesis by simp
qed

subsection \<open>What one child of the pattern list contributes\<close>

lemma visit_pattern_segment:
  assumes "visit_pattern normalise self p acc h = Some (Inr acc', h')"
  shows "getlist k (fst acc') = getlist k (fst acc) @ leaf_segment normalise p k"
proof (cases k)
  case (Callback c)
  with visit_pattern_getlist(2) [OF assms, of c] show ?thesis
    by (auto simp: leaf_segment_def carries_def)
next
  case (Name n)
  with visit_pattern_getlist(1) [OF assms, of n] show ?thesis
    by (auto simp: leaf_segment_def carries_def)
qed

lemma inner_merge_getlist:
  "getlist k (foldl (\<lambda>lookups (_, pat, defaults).
        appendlist name
          (normalise (parent_pat @ pat), p_pattern @ pat, dict_update defaults kwargs) lookups)
      lookups es)
   = getlist k lookups
       @ (if k = name then map (merged_entry normalise parent_pat p_pattern kwargs) es else [])"
proof (induction es arbitrary: lookups)
  case Nil
  show ?case by simp
next
  case (Cons e es)
  show ?case
    by (cases e) (simp add: Cons.IH getlist_appendlist merged_entry_def)
qed

lemma merge_reverse_getlist:
  "getlist k (merge_reverse normalise (pattern r) (strip_anchor (pattern r)) kwargs child lookups)
   = getlist k lookups @ include_segment normalise r kwargs child k"
proof -
  have "getlist k (foldl (\<lambda>lookups name.
        foldl (\<lambda>lookups (_, pat, defaults).
            appendlist name
              (normalise (parent_pat @ pat), p_pattern @ pat, dict_update defaults kwargs)
              lookups)
          lookups (getlist name child))
       lookups names)
     = getlist k lookups
       @ concat (map (\<lambda>name. if k = name
                       then map (merged_entry normalise parent_pat p_pattern kwargs)
                              (getlist name child)
                       else [])
                  names)" for names lookups parent_pat p_pattern
  proof (induction names arbitrary: lookups)
    case Nil
    show ?case by simp
  next
    case (Cons n names)
    show ?case by (simp add: Cons.IH inner_merge_getlist)
  qed
  then show ?thesis by (simp add: merge_reverse_def include_segment_def)
qed

lemma include_segment_covers:
  assumes "has_entry t k pat"
  shows "strip_anchor (pattern r) @ pat \<in> patterns_of (include_segment normalise r kwargs t k)"
proof -
  from assms obtain b dd where e: "(b, pat, dd) \<in> set (getlist k t)"
    by (auto simp: has_entry_def)
  then obtain vs where "map_of t k = Some vs"
    by (cases "map_of t k") (auto simp: getlist_def)
  then have "(k, vs) \<in> set t" by (rule map_of_SomeD)
  then have k: "k \<in> set (map fst t)" by force
  from e have "merged_entry normalise (pattern r) (strip_anchor (pattern r)) kwargs (b, pat, dd)
      \<in> set (map (merged_entry normalise (pattern r) (strip_anchor (pattern r)) kwargs)
               (getlist k t))"
    by simp
  with k show ?thesis
    by (force simp: patterns_of_def merged_entry_def include_segment_def)
qed

lemma contributes_declares:
  assumes "good_cache cs h" and "contributes normalise cs h nd k S"
    and "node_declares cs h nd k pat"
  shows "pat \<in> patterns_of S"
proof (cases nd)
  case (URLPattern p)
  with assms(2,3) show ?thesis
    by (simp add: leaf_segment_def patterns_of_def leaf_entry_def)
next
  case (URLResolver c)
  with assms obtain t pat' where
    S: "S = include_segment normalise (regex cs (h c)) (default_kwargs (h c)) t k"
    and cov: "covers cs h c t"
    and d: "declared cs h c k pat'"
    and pat: "pat = strip_anchor (pattern (regex cs (h c))) @ pat'"
    by auto
  from cov d have "has_entry t k pat'" by (simp add: covers_def)
  then show ?thesis unfolding S pat by (rule include_segment_covers)
qed

lemma contributes_back:
  assumes st: "stable pp h h1" and g: "good_cache cs h \<Longrightarrow> good_cache cs h1"
    and c: "contributes normalise cs h1 nd k S"
  shows "contributes normalise cs h nd k S"
proof (cases nd)
  case (URLPattern p)
  with c show ?thesis by simp
next
  case (URLResolver r)
  from st have same: "namespace (h1 r) = namespace (h r)"
    "default_kwargs (h1 r) = default_kwargs (h r)"
    by (simp_all add: stable_def)
  show ?thesis
  proof (cases "truthy (namespace (h r))")
    case True
    with c URLResolver show ?thesis by (simp add: same)
  next
    case False
    with c URLResolver obtain t where
      S: "S = include_segment normalise (regex cs (h r)) (default_kwargs (h r)) t k"
      and cov: "good_cache cs h1 \<longrightarrow> covers cs h r t"
      by (auto simp: same regex_stable [OF st] covers_stable [OF st])
    from cov g have "good_cache cs h \<longrightarrow> covers cs h r t" by blast
    with S False URLResolver show ?thesis by auto
  qed
qed

lemma register_child_segment:
  assumes keeps: "keeps (get_path_prefix cs) pop" and pres: "preserves cs pop"
    and r: "register_child pop normalise cs child acc h = Some (Inr acc', h')"
  shows "\<exists>S. getlist k (fst acc') = getlist k (fst acc) @ S
           \<and> contributes normalise cs h (URLResolver child) k S"
proof -
  obtain lookups namespaces apps where acc: "acc = (lookups, namespaces, apps)"
    by (cases acc) auto
  show ?thesis
  proof (cases "truthy (namespace (h child))")
    case True
    with r show ?thesis by (auto simp: register_child_def acc Let_def)
  next
    case False
    let ?r = "regex cs (h child)"
    from r False obtain t h1 where
      rd: "reverse_dict_with pop cs h child = Some (Inr t, h1)"
      and acc': "fst acc' = merge_reverse normalise (pattern ?r) (strip_anchor (pattern ?r))
                   (default_kwargs (h1 child)) t lookups"
      by (auto simp: register_child_def acc Let_def and_then_Some_Inr)
    have st: "stable (get_path_prefix cs) h h1" by (rule reverse_dict_with_stable [OF keeps rd])
    then have kw: "default_kwargs (h1 child) = default_kwargs (h child)"
      by (simp add: stable_def)
    have "good_cache cs h \<longrightarrow> covers cs h child t"
    proof
      assume "good_cache cs h"
      from reverse_dict_with_good [OF pres this rd] have "covers cs h1 child t" by simp
      then show "covers cs h child t" by (simp add: covers_stable [OF st])
    qed
    with False show ?thesis
      by (auto simp: acc' acc kw merge_reverse_getlist)
  qed
qed

lemma visit_segment:
  assumes keeps: "keeps (get_path_prefix cs) pop" and pres: "preserves cs pop"
    and v: "visit pop normalise cs self nd acc h = Some (Inr acc', h')"
  shows "\<exists>S. getlist k (fst acc') = getlist k (fst acc) @ S
           \<and> contributes normalise cs h nd k S"
proof (cases nd)
  case (URLPattern p)
  with v show ?thesis by (simp add: visit_pattern_segment)
next
  case (URLResolver child)
  with v obtain a h1 where
    "register_child pop normalise cs child acc h = Some (Inr a, h1)" and "acc' = a"
    by (auto simp: visit_resolver_def and_then_Some_Inr)
  with register_child_segment [OF keeps pres, of normalise child acc h a h1 k] URLResolver
  show ?thesis by simp
qed

lemma walk_other_leaves:
  "other_leaves k ps \<Longrightarrow> walk pop normalise cs self ps acc h = Some (Inr acc', h') \<Longrightarrow>
     getlist k (fst acc') = getlist k (fst acc)"
proof (induction ps arbitrary: acc h)
  case Nil
  then show ?case by simp
next
  case (Cons p ps)
  from Cons.prems(1) obtain u where u: "p = URLPattern u" "\<not> carries u k"
    and rest: "other_leaves k ps"
    by (auto simp: other_leaves_def)
  from Cons.prems(2) u obtain a h1 where
    v: "visit_pattern normalise self u acc h = Some (Inr a, h1)"
    and w: "walk pop normalise cs self ps a h1 = Some (Inr acc', h')"
    by (auto simp: and_then_Some_Inr)
  from visit_pattern_segment [OF v, of k] u have "getlist k (fst a) = getlist k (fst acc)"
    by (simp add: leaf_segment_def)
  with Cons.IH [OF rest w] show ?case by simp
qed

lemma walk_node_first:
  assumes keeps: "keeps (get_path_prefix cs) pop" and pres: "preserves cs pop"
    and w: "walk pop normalise cs self (nd # ps) acc h = Some (Inr acc', h')"
  shows "\<exists>S more. getlist k (fst acc') = getlist k (fst acc) @ S @ more
           \<and> contributes normalise cs h nd k S"
proof -
  from w obtain a h1 where
    v: "visit pop normalise cs self nd acc h = Some (Inr a, h1)"
    and w': "walk pop normalise cs self ps a h1 = Some (Inr acc', h')"
    by (auto simp: and_then_Some_Inr)
  from visit_segment [OF keeps pres v, of k] obtain S where
    S: "getlist k (fst a) = getlist k (fst acc) @ S" "contributes normalise cs h nd k S"
    by blast
  from walk_extends [OF w', of k] obtain more where
    "getlist k (fst acc') = getlist k (fst a) @ more"
    by (auto simp: extends_def)
  with S show ?thesis by auto
qed

lemma walk_two_nodes:
  assumes keeps: "keeps (get_path_prefix cs) pop" and pres: "preserves cs pop"
    and w: "walk pop normalise cs self (xs @ n2 # ys @ n1 # zs) acc h = Some (Inr acc', h')"
  shows "\<exists>A S2 B S1 C. getlist k (fst acc') = getlist k (fst acc) @ A @ S2 @ B @ S1 @ C
           \<and> contributes normalise cs h n2 k S2 \<and> contributes normalise cs h n1 k S1
           \<and> (other_leaves k xs \<longrightarrow> A = [])"
proof -
  let ?pp = "get_path_prefix cs"
  from w obtain a1 h1 where
    w1: "walk pop normalise cs self xs acc h = Some (Inr a1, h1)"
    and w2: "walk pop normalise cs self (n2 # ys @ n1 # zs) a1 h1 = Some (Inr acc', h')"
    by (auto simp: walk_append and_then_Some_Inr)
  from w2 obtain a2 h2 where
    v2: "visit pop normalise cs self n2 a1 h1 = Some (Inr a2, h2)"
    and w3: "walk pop normalise cs self (ys @ n1 # zs) a2 h2 = Some (Inr acc', h')"
    by (auto simp: and_then_Some_Inr)
  from w3 obtain a3 h3 where
    w4: "walk pop normalise cs self ys a2 h2 = Some (Inr a3, h3)"
    and w5: "walk pop normalise cs self (n1 # zs) a3 h3 = Some (Inr acc', h')"
    by (auto simp: walk_append and_then_Some_Inr)
  have st1: "stable ?pp h h1" by (rule walk_stable [OF keeps w1])
  have st2: "stable ?pp h1 h2" by (rule visit_stable [OF keeps v2])
  have st3: "stable ?pp h2 h3" by (rule walk_stable [OF keeps w4])
  have st13: "stable ?pp h h3" by (rule stable_trans [OF st1 stable_trans [OF st2 st3]])
  have g1: "good_cache cs h1" if "good_cache cs h"
    using walk_good [OF keeps pres that w1] by simp
  have g2: "good_cache cs h2" if "good_cache cs h"
    using visit_good [OF keeps pres g1 [OF that] v2] by simp
  have g3: "good_cache cs h3" if "good_cache cs h"
    using walk_good [OF keeps pres g2 [OF that] w4] by simp
  from walk_extends [OF w1, of k] obtain A where
    A: "getlist k (fst a1) = getlist k (fst acc) @ A"
    by (auto simp: extends_def)
  from visit_segment [OF keeps pres v2, of k] obtain S2 where
    S2: "getlist k (fst a2) = getlist k (fst a1) @ S2"
    and c2': "contributes normalise cs h1 n2 k S2"
    by blast
  from walk_extends [OF w4, of k] obtain B where
    B: "getlist k (fst a3) = getlist k (fst a2) @ B"
    by (auto simp: extends_def)
  from walk_node_first [OF keeps pres w5, of k] obtain S1 C where
    S1: "getlist k (fst acc') = getlist k (fst a3) @ S1 @ C"
    and c1': "contributes normalise cs h3 n1 k S1"
    by blast
  have c2: "contributes normalise cs h n2 k S2"
    by (rule contributes_back [OF st1 g1 c2'])
  have c1: "contributes normalise cs h n1 k S1"
    by (rule contributes_back [OF st13 g3 c1'])
  have "getlist k (fst acc') = getlist k (fst acc) @ A @ S2 @ B @ S1 @ C"
    by (simp add: A S2 B S1)
  moreover have "other_leaves k xs \<longrightarrow> A = []"
    using walk_other_leaves [OF _ w1] A by auto
  ultimately show ?thesis using c1 c2 by blast
qed

chapter \<open>The claims\<close>

section \<open>The tenant context and the path prefix (\<^verbatim>\<open>urlresolvers.py\<close>)\<close>

text \<open>
  C6. With no active tenant, or with a tenant whose \<^verbatim>\<open>path_prefix\<close> is \<^verbatim>\<open>None\<close> or
  empty, the derived prefix is the sentinel \<^verbatim>\<open>"_"\<close> and the site resolver's regex is
  \<^verbatim>\<open>'^'\<close>, which leaves nothing once its anchor is stripped, so the patterns below it
  stay unprefixed. For a tenant with any other prefix \<open>p\<close> (non-empty, not the sentinel) the
  derived prefix is \<open>p\<close> and the regex is \<^verbatim>\<open>'^p/'\<close>.
\<close>

theorem C6_sentinel_and_site_regex:
  "(cs = None \<or> (\<exists>s. cs = Some s \<and> (path_prefix s = None \<or> path_prefix s = Some []))
      \<longrightarrow> get_path_prefix cs = ''_'' \<and> site_regex cs = ReCompile ''^''
          \<and> strip_anchor (pattern (site_regex cs)) = [])
   \<and> ((\<exists>s. cs = Some s \<and> path_prefix s = Some p) \<and> p \<noteq> [] \<and> p \<noteq> ''_''
      \<longrightarrow> get_path_prefix cs = p \<and> site_regex cs = ReCompile (''^'' @ p @ ''/'')
          \<and> strip_anchor (pattern (site_regex cs)) = p @ ''/'')"
  by (auto simp: get_path_prefix_def site_regex_def)

theorem C6_witness:
  "get_path_prefix None = ''_'' \<and> site_regex None = ReCompile ''^''
   \<and> get_path_prefix (Some \<lparr>path_prefix = Some []\<rparr>) = ''_''
   \<and> site_regex (Some \<lparr>path_prefix = None\<rparr>) = ReCompile ''^''
   \<and> get_path_prefix (Some \<lparr>path_prefix = Some ''acme''\<rparr>) = ''acme''
   \<and> site_regex (Some \<lparr>path_prefix = Some ''acme''\<rparr>) = ReCompile ''^acme/''"
  using C6_sentinel_and_site_regex [of None "''acme''"]
    C6_sentinel_and_site_regex [of "Some \<lparr>path_prefix = Some []\<rparr>" "''acme''"]
    C6_sentinel_and_site_regex [of "Some \<lparr>path_prefix = None\<rparr>" "''acme''"]
    C6_sentinel_and_site_regex [of "Some \<lparr>path_prefix = Some ''acme''\<rparr>" "''acme''"]
  by simp

section \<open>Route registration: \<^verbatim>\<open>url_sites\<close>\<close>

text \<open>
  C10, as stated, fails: in the fallback definition a missing view (\<^verbatim>\<open>None\<close>) raises
  nothing, and a pattern node holding \<^verbatim>\<open>None\<close> is returned.
\<close>

theorem C10_counterexample:
  "url_sites False ''^about/$'' PyNone PyNone PyNone (PyStr [])
     = Inr (PatternNode (RegexStr ''^about/$'') PyNone PyNone PyNone)"
  by (simp add: url_sites_def url_sites_except_def)

text \<open>
  C10, amended. When \<^verbatim>\<open>RegexPattern\<close> is importable, \<^verbatim>\<open>url_sites\<close> raises
  \<^verbatim>\<open>ImproperlyConfigured\<close> for a false (empty or missing) view, \<^verbatim>\<open>TypeError\<close> for a true
  view that is neither a callable nor a list or tuple, returns a resolver node for a
  list or tuple of three elements and a pattern node for a callable. In the fallback
  definition only an empty string is rejected with \<^verbatim>\<open>ImproperlyConfigured\<close>; every
  other view that is not a list or tuple, \<^verbatim>\<open>None\<close> and non-callables included, yields a
  pattern node when no prefix is given.
\<close>

theorem C10_url_sites_amended:
  "(\<not> py_bool view \<longrightarrow> url_sites True route view kwargs name prefix = Inl ImproperlyConfigured)
   \<and> (py_bool view \<and> \<not> is_list_or_tuple view \<and> \<not> callable view
        \<longrightarrow> url_sites True route view kwargs name prefix = Inl TypeError)
   \<and> (view = PySeq [u, a, n]
        \<longrightarrow> url_sites True route view kwargs name prefix
            = Inr (ResolverNode (RegexPattern route PyNone False) u kwargs a n))
   \<and> (callable view
        \<longrightarrow> url_sites True route view kwargs name prefix
            = Inr (PatternNode (RegexPattern route name True) view kwargs name))
   \<and> (view = PyStr []
        \<longrightarrow> url_sites False route view kwargs name prefix = Inl ImproperlyConfigured)
   \<and> (\<not> is_list_or_tuple view \<and> view \<noteq> PyStr [] \<and> \<not> py_bool prefix
        \<longrightarrow> url_sites False route view kwargs name prefix
            = Inr (PatternNode (RegexStr route) view kwargs name))"
  by (cases view) (auto simp: url_sites_def url_sites_try_def url_sites_except_def)

theorem C10_witness:
  "url_sites True ''^a/$'' (PyStr []) PyNone PyNone (PyStr []) = Inl ImproperlyConfigured
   \<and> url_sites True ''^a/$'' PyNone PyNone PyNone (PyStr []) = Inl ImproperlyConfigured
   \<and> url_sites True ''^a/$'' (PyInt 42) PyNone PyNone (PyStr []) = Inl TypeError
   \<and> url_sites True ''^a/$'' (PySeq [PyModule ''app.urls'', PyNone, PyStr ''ns'']) PyNone PyNone
        (PyStr [])
      = Inr (ResolverNode (RegexPattern ''^a/$'' PyNone False) (PyModule ''app.urls'') PyNone
          PyNone (PyStr ''ns''))
   \<and> url_sites True ''^a/$'' (PyCallable ''app.views.home'') PyNone (PyStr ''home'') (PyStr [])
      = Inr (PatternNode (RegexPattern ''^a/$'' (PyStr ''home'') True)
          (PyCallable ''app.views.home'') PyNone (PyStr ''home''))
   \<and> url_sites False ''^a/$'' (PyStr []) PyNone PyNone (PyStr []) = Inl ImproperlyConfigured
   \<and> url_sites False ''^a/$'' (PyInt 42) PyNone PyNone (PyStr [])
      = Inr (PatternNode (RegexStr ''^a/$'') (PyInt 42) PyNone PyNone)"
  using C10_url_sites_amended [of "PyStr []" "''^a/$''" PyNone PyNone "PyStr []"]
    C10_url_sites_amended [of PyNone "''^a/$''" PyNone PyNone "PyStr []"]
    C10_url_sites_amended [of "PyInt 42" "''^a/$''" PyNone PyNone "PyStr []"]
    C10_url_sites_amended [of "PySeq [PyModule ''app.urls'', PyNone, PyStr ''ns'']" "''^a/$''"
      PyNone PyNone "PyStr []" "PyModule ''app.urls''" PyNone "PyStr ''ns''"]
    C10_url_sites_amended [of "PyCallable ''app.views.home''" "''^a/$''" PyNone "PyStr ''home''"
      "PyStr []"]
  by simp

section \<open>The site registry (\<^verbatim>\<open>models.py\<close>)\<close>

text \<open>
  C8, as stated, fails: of two rows with the subdomain and different non-empty domains the
  one whose domain sorts last is returned, here the older one; and on a database that puts
  \<^verbatim>\<open>NULL\<close> first in a descending order the row without a domain is returned before the
  one with a domain.
\<close>

theorem C8_counterexample:
  "get_site_or_none binary_nulls_low
     [\<lparr>pk = 1, domain = Some ''z.example.com'', slug = ''old'', subdomain = ''shop''\<rparr>,
      \<lparr>pk = 2, domain = Some ''a.example.com'', slug = ''new'', subdomain = ''shop''\<rparr>] ''shop''
     = Some \<lparr>pk = 1, domain = Some ''z.example.com'', slug = ''old'', subdomain = ''shop''\<rparr>
   \<and> truthy (Some ''z.example.com'') \<and> truthy (Some ''a.example.com'') \<and> (1::nat) < 2
   \<and> get_site_or_none binary_nulls_high
     [\<lparr>pk = 1, domain = None, slug = ''bare'', subdomain = ''shop''\<rparr>,
      \<lparr>pk = 2, domain = Some ''shop.example.com'', slug = ''named'', subdomain = ''shop''\<rparr>]
     ''shop''
     = Some \<lparr>pk = 1, domain = None, slug = ''bare'', subdomain = ''shop''\<rparr>"
  by code_simp

text \<open>
  C8, amended. \<^verbatim>\<open>get_site_or_none\<close> is a total function: it returns \<^verbatim>\<open>None\<close> exactly
  when no row has the subdomain, and otherwise a row of the table with that subdomain
  whose domain comes last in the order of the database; among the rows whose domains
  stand at that same place, it has the greatest primary key. A row with a non-empty domain
  is preferred to one without when the database puts a missing domain below every
  non-empty one. Two rows with different non-empty domains are not a tie: the primary key
  is read only when the domains compare equal.
\<close>

theorem C8_get_site_or_none:
  fixes rank :: "string option \<Rightarrow> 'r::linorder"
  shows "(get_site_or_none rank objects sub = None \<longleftrightarrow> (\<forall>s\<in>set objects. subdomain s \<noteq> sub))
   \<and> (\<forall>r. get_site_or_none rank objects sub = Some r \<longrightarrow>
         r \<in> set objects \<and> subdomain r = sub
         \<and> (\<forall>s\<in>set objects. subdomain s = sub \<longrightarrow>
               rank (domain s) \<le> rank (domain r)
               \<and> (rank (domain s) = rank (domain r) \<longrightarrow> pk s \<le> pk r)
               \<and> (no_domain_lowest rank \<and> truthy (domain s) \<longrightarrow> truthy (domain r))))"
proof (intro conjI allI impI)
  show "get_site_or_none rank objects sub = None \<longleftrightarrow> (\<forall>s\<in>set objects. subdomain s \<noteq> sub)"
    by (auto simp: get_site_or_none_def first_order_by_desc_None filter_empty_conv)
next
  fix r assume "get_site_or_none rank objects sub = Some r"
  from first_order_by_desc_Some [OF this [unfolded get_site_or_none_def]]
  have r: "r \<in> set objects" "subdomain r = sub"
    and mx: "\<forall>s\<in>set objects. subdomain s = sub \<longrightarrow> order_by_key rank s \<le> order_by_key rank r"
    by auto
  show "r \<in> set objects" by fact
  show "subdomain r = sub" by fact
  show "\<forall>s\<in>set objects. subdomain s = sub \<longrightarrow>
               rank (domain s) \<le> rank (domain r)
               \<and> (rank (domain s) = rank (domain r) \<longrightarrow> pk s \<le> pk r)
               \<and> (no_domain_lowest rank \<and> truthy (domain s) \<longrightarrow> truthy (domain r))"
  proof (intro ballI impI conjI)
    fix s assume s: "s \<in> set objects" "subdomain s = sub"
    with mx have le: "order_by_key rank s \<le> order_by_key rank r" by blast
    from key_le_D [OF le] show d: "rank (domain s) \<le> rank (domain r)" by simp
    show "pk s \<le> pk r" if "rank (domain s) = rank (domain r)"
      using key_le_D [OF le] that by simp
    show "truthy (domain r)" if "no_domain_lowest rank \<and> truthy (domain s)"
      using rank_truthy [OF _ d] that by blast
  qed
qed

theorem C8_witness:
  "get_site_or_none binary_nulls_low
     [\<lparr>pk = 1, domain = None, slug = ''a'', subdomain = ''shop''\<rparr>,
      \<lparr>pk = 2, domain = Some ''shop.example.com'', slug = ''b'', subdomain = ''shop''\<rparr>,
      \<lparr>pk = 3, domain = None, slug = ''c'', subdomain = ''shop''\<rparr>,
      \<lparr>pk = 4, domain = Some ''shop.example.com'', slug = ''d'', subdomain = ''shop''\<rparr>,
      \<lparr>pk = 5, domain = Some ''x.org'', slug = ''e'', subdomain = ''other''\<rparr>] ''shop''
     = Some \<lparr>pk = 4, domain = Some ''shop.example.com'', slug = ''d'', subdomain = ''shop''\<rparr>
   \<and> no_domain_lowest binary_nulls_low
   \<and> truthy (Some ''shop.example.com'')
   \<and> binary_nulls_low None \<le> binary_nulls_low (Some ''shop.example.com'')
   \<and> (2::nat) \<le> 4
   \<and> get_site_or_none binary_nulls_low
       [\<lparr>pk = 1, domain = None, slug = ''a'', subdomain = ''shop''\<rparr>] ''blog'' = None"
proof -
  let ?t = "[\<lparr>pk = 1, domain = None, slug = ''a'', subdomain = ''shop''\<rparr>,
      \<lparr>pk = 2, domain = Some ''shop.example.com'', slug = ''b'', subdomain = ''shop''\<rparr>,
      \<lparr>pk = 3, domain = None, slug = ''c'', subdomain = ''shop''\<rparr>,
      \<lparr>pk = 4, domain = Some ''shop.example.com'', slug = ''d'', subdomain = ''shop''\<rparr>,
      \<lparr>pk = 5, domain = Some ''x.org'', slug = ''e'', subdomain = ''other''\<rparr>]"
  have found: "get_site_or_none binary_nulls_low ?t ''shop''
      = Some \<lparr>pk = 4, domain = Some ''shop.example.com'', slug = ''d'', subdomain = ''shop''\<rparr>"
    by code_simp
  have none: "get_site_or_none binary_nulls_low
       [\<lparr>pk = 1, domain = None, slug = ''a'', subdomain = ''shop''\<rparr>] ''blog'' = None"
    using C8_get_site_or_none
      [of binary_nulls_low "[\<lparr>pk = 1, domain = None, slug = ''a'', subdomain = ''shop''\<rparr>]"
          "''blog''"]
    by simp
  from C8_get_site_or_none [of binary_nulls_low ?t "''shop''"] found none
    binary_nulls_low_lowest
  show ?thesis by (simp add: binary_nulls_low_def)
qed

text \<open>
  C9, as stated, fails: the pattern check accepts values that do not consist of two
  dot-separated labels, since the regex is searched for and not anchored, and its last
  label may be a single hyphen. A no-break space, which is not in \<^verbatim>\<open>string.whitespace\<close>,
  passes as well.
\<close>

theorem C9_counterexample:
  "\<not> dns_name ''a.-''
   \<and> regex_validator domain_regex ''a.-'' = Inr ()
   \<and> validate_domain (Some ''a.-'') = Inr ()
   \<and> \<not> dns_name ''http://evil.com/?q=<script>''
   \<and> regex_validator domain_regex ''http://evil.com/?q=<script>'' = Inr ()
   \<and> validate_domain (Some ''http://evil.com/?q=<script>'') = Inr ()
   \<and> validate_domain (Some [CHR ''a'', CHR ''.'', CHR ''b'', CHR 0xA0]) = Inr ()"
proof -
  have short: "\<not> dns_name ''a.-''" "regex_validator domain_regex ''a.-'' = Inr ()"
      "validate_domain (Some ''a.-'') = Inr ()"
    by code_simp+
  have nbsp: "validate_domain (Some [CHR ''a'', CHR ''.'', CHR ''b'', CHR 0xA0]) = Inr ()"
    by code_simp
  have no_name: "\<not> dns_name ''http://evil.com/?q=<script>''" by code_simp
  have "has_label_dot_label ''http://evil.com/?q=<script>''"
    unfolding has_label_dot_label_def
    by (intro exI [of _ "''http://''"] exI [of _ "CHR ''e''"] exI [of _ "''vil''"]
        exI [of _ "CHR ''c''"] exI [of _ "''om/?q=<script>''"])
       (simp add: is_alnum_def is_alnum_hyphen_def)
  then have found: "re_search domain_regex ''http://evil.com/?q=<script>''"
    by (simp only: domain_regex_search_iff)
  then have url: "regex_validator domain_regex ''http://evil.com/?q=<script>'' = Inr ()"
      "validate_domain (Some ''http://evil.com/?q=<script>'') = Inr ()"
    by (simp_all add: validate_domain_def domain_validators_def regex_validator_def
        domain_name_validator_def max_length_validator_def string_whitespace_def
        del: re_search.simps)
  from short nbsp no_name url show ?thesis by (intro conjI)
qed

text \<open>
  C9, amended. A non-empty value that contains a character of \<^verbatim>\<open>string.whitespace\<close>
  (space, tab, line feed, carriage return, vertical tab, form feed) is rejected by
  \<^verbatim>\<open>domain_name_validator\<close>, and so by the field. The pattern check is a search: it
  accepts exactly the values that contain, somewhere, a lowercase letter or digit, then
  letters, digits and hyphens, a dot and one more letter, digit or hyphen. So it rejects
  every value without a dot and accepts every value made of two or more dot-separated
  labels, but it also accepts values that are not such names. \<^verbatim>\<open>"example.com"\<close> is
  accepted; \<^verbatim>\<open>"exa mple.com"\<close> is rejected by the whitespace check and \<^verbatim>\<open>"example"\<close> by
  the pattern check.
\<close>

theorem C9_domain_validation:
  "(v \<noteq> [] \<and> (\<exists>c\<in>set v. c \<in> set string_whitespace) \<longrightarrow>
      domain_name_validator (Some v) = Inl ValidationError
      \<and> validate_domain (Some v) = Inl ValidationError)
   \<and> (regex_validator domain_regex v = Inr () \<longleftrightarrow> has_label_dot_label v)
   \<and> (v \<noteq> [] \<and> \<not> has_label_dot_label v \<longrightarrow> validate_domain (Some v) = Inl ValidationError)
   \<and> (CHR ''.'' \<notin> set v \<longrightarrow> regex_validator domain_regex v = Inl ValidationError)
   \<and> (dns_name v \<longrightarrow> regex_validator domain_regex v = Inr ())
   \<and> (dns_name v \<and> length v \<le> 100 \<longrightarrow> validate_domain (Some v) = Inr ())
   \<and> validate_domain (Some ''example.com'') = Inr ()
   \<and> domain_name_validator (Some ''exa mple.com'') = Inl ValidationError
   \<and> validate_domain (Some ''exa mple.com'') = Inl ValidationError
   \<and> regex_validator domain_regex ''example'' = Inl ValidationError
   \<and> validate_domain (Some ''example'') = Inl ValidationError"
proof (intro conjI impI)
  assume ws: "v \<noteq> [] \<and> (\<exists>c\<in>set v. c \<in> set string_whitespace)"
  then show a: "domain_name_validator (Some v) = Inl ValidationError"
    by (auto simp: domain_name_validator_def list_ex_iff)
  from ws a show "validate_domain (Some v) = Inl ValidationError"
    by (simp add: validate_domain_def domain_validators_def)
next
  show "regex_validator domain_regex v = Inr () \<longleftrightarrow> has_label_dot_label v"
    by (simp add: regex_validator_def domain_regex_search_iff)
next
  assume "v \<noteq> [] \<and> \<not> has_label_dot_label v"
  then show "validate_domain (Some v) = Inl ValidationError"
    by (simp add: validate_domain_def domain_validators_def regex_validator_def
        domain_regex_search_iff)
next
  assume "CHR ''.'' \<notin> set v"
  then show "regex_validator domain_regex v = Inl ValidationError"
    by (simp add: regex_validator_def domain_regex_search_iff no_dot_no_match)
next
  assume "dns_name v"
  then show "regex_validator domain_regex v = Inr ()"
    by (simp add: regex_validator_def domain_regex_search_iff dns_name_has_label_dot_label)
next
  assume n: "dns_name v \<and> length v \<le> 100"
  then have "has_label_dot_label v" by (simp add: dns_name_has_label_dot_label)
  moreover from n have "\<not> list_ex (\<lambda>s. s \<in> set v) string_whitespace"
    using dns_name_no_whitespace [of v] by (auto simp: list_ex_iff)
  ultimately show "validate_domain (Some v) = Inr ()"
    using n
    by (simp add: validate_domain_def domain_validators_def regex_validator_def
        domain_regex_search_iff domain_name_validator_def max_length_validator_def)
next
  show "validate_domain (Some ''example.com'') = Inr ()" by code_simp
  show "domain_name_validator (Some ''exa mple.com'') = Inl ValidationError" by code_simp
  show "validate_domain (Some ''exa mple.com'') = Inl ValidationError" by code_simp
  show "regex_validator domain_regex ''example'' = Inl ValidationError" by code_simp
  show "validate_domain (Some ''example'') = Inl ValidationError" by code_simp
qed

theorem C9_witness:
  "''a b.c'' \<noteq> [] \<and> CHR '' '' \<in> set ''a b.c'' \<and> CHR '' '' \<in> set string_whitespace
   \<and> validate_domain (Some ''a b.c'') = Inl ValidationError
   \<and> CHR 0x09 \<in> set string_whitespace
   \<and> domain_name_validator (Some [CHR ''a'', CHR 0x09, CHR ''b'']) = Inl ValidationError
   \<and> CHR ''.'' \<notin> set ''example''
   \<and> regex_validator domain_regex ''example'' = Inl ValidationError
   \<and> \<not> has_label_dot_label ''example''
   \<and> validate_domain (Some ''example'') = Inl ValidationError
   \<and> dns_name ''shop-1.example.com'' \<and> length ''shop-1.example.com'' \<le> 100
   \<and> regex_validator domain_regex ''shop-1.example.com'' = Inr ()
   \<and> has_label_dot_label ''shop-1.example.com''
   \<and> validate_domain (Some ''shop-1.example.com'') = Inr ()"
proof -
  have ws: "CHR '' '' \<in> set string_whitespace" "CHR 0x09 \<in> set string_whitespace"
    by (simp_all add: string_whitespace_def)
  have n: "dns_name ''shop-1.example.com''" by code_simp
  have len: "length ''shop-1.example.com'' \<le> 100" by simp
  have dot: "CHR ''.'' \<notin> set ''example''" by simp
  note space = C9_domain_validation [of "''a b.c''", THEN conjunct1]
  note tab = C9_domain_validation [of "[CHR ''a'', CHR 0x09, CHR ''b'']", THEN conjunct1]
  note iff = C9_domain_validation [THEN conjunct2, THEN conjunct1]
  note unlabelled = C9_domain_validation [THEN conjunct2, THEN conjunct2, THEN conjunct1]
  note dotless = C9_domain_validation [THEN conjunct2, THEN conjunct2, THEN conjunct2,
      THEN conjunct1, rule_format]
  note named = C9_domain_validation [THEN conjunct2, THEN conjunct2, THEN conjunct2,
      THEN conjunct2, THEN conjunct1, rule_format]
  note valid = C9_domain_validation [THEN conjunct2, THEN conjunct2, THEN conjunct2,
      THEN conjunct2, THEN conjunct2, THEN conjunct1, rule_format]
  have 1: "validate_domain (Some ''a b.c'') = Inl ValidationError"
    using space ws(1) by simp
  have 2: "domain_name_validator (Some [CHR ''a'', CHR 0x09, CHR ''b'']) = Inl ValidationError"
    using tab ws(2) by simp
  have 3: "regex_validator domain_regex ''example'' = Inl ValidationError"
    by (rule dotless [OF dot])
  have 4: "\<not> has_label_dot_label ''example''"
    using iff [of "''example''"] 3 by simp
  have 5: "validate_domain (Some ''example'') = Inl ValidationError"
    using unlabelled [of "''example''"] 4 by simp
  have 6: "regex_validator domain_regex ''shop-1.example.com'' = Inr ()"
    by (rule named [OF n])
  have 7: "has_label_dot_label ''shop-1.example.com''"
    using iff [of "''shop-1.example.com''"] 6 by simp
  have 8: "validate_domain (Some ''shop-1.example.com'') = Inr ()"
    by (rule valid [OF conjI [OF n len]])
  have 0: "''a b.c'' \<noteq> []" "CHR '' '' \<in> set ''a b.c''" by simp_all
  from 0 ws 1 2 dot 3 4 5 n len 6 7 8 show ?thesis by (intro conjI)
qed

section \<open>The per-prefix resolution cache (\<^verbatim>\<open>urlresolvers.py\<close>)\<close>

subsection \<open>The guard and the cache\<close>

text \<open>
  C1. A call of \<^verbatim>\<open>_populate\<close> on a resolver whose \<open>populating\<close> flag is set returns at
  once, whatever the fuel, and the heap it leaves is the heap it found: no table of any
  resolver is touched. As a consequence the recursion is bounded: on every finite set of
  resolvers that is closed under \<^verbatim>\<open>url_patterns\<close>, cyclic or not, \<^verbatim>\<open>_populate\<close> comes back
  within a nesting depth of the size of the set.
\<close>

theorem C1_reentrant_populate:
  "(populating (h self) \<longrightarrow> populate normalise cs fuel h self = Some (Inr (), h))
   \<and> (finite A \<and> closed A h \<and> self \<in> A \<longrightarrow>
        (\<exists>res h'. populate normalise cs (card A) h self = Some (res, h')))"
proof (intro conjI impI)
  assume "populating (h self)"
  then show "populate normalise cs fuel h self = Some (Inr (), h)"
    by (simp add: populate_reentrant returns_def)
next
  assume a: "finite A \<and> closed A h \<and> self \<in> A"
  then have "card (idle A h) \<le> card A"
    by (intro card_mono) (auto simp: idle_def)
  with a have "populate normalise cs (card A) h self \<noteq> None"
    by (intro populate_answers) auto
  then show "\<exists>res h'. populate normalise cs (card A) h self = Some (res, h')"
    by auto
qed

theorem C1_witness:
  "populating (reentered_heap 1)
   \<and> populate id None 0 reentered_heap 1 = Some (Inr (), reentered_heap)
   \<and> populate id acme 7 reentered_heap 1 = Some (Inr (), reentered_heap)
   \<and> finite {0::nat} \<and> closed {0} cyclic_heap \<and> (0::nat) \<in> {0}
   \<and> (\<exists>res h'. populate id acme (card {0::nat}) cyclic_heap 0 = Some (res, h'))
   \<and> outcome (populate id acme 1 cyclic_heap 0) = Some (Inr ())"
proof -
  have b: "populating (reentered_heap 1)"
    by (simp add: reentered_heap_def busy_resolver_def)
  have c: "closed {0} cyclic_heap"
    by (simp add: closed_def cyclic_heap_def new_resolver_def)
  have o: "outcome (populate id acme 1 cyclic_heap 0) = Some (Inr ())"
    by code_simp
  from b c o C1_reentrant_populate [of reentered_heap 1 id None 0 "{}"]
    C1_reentrant_populate [of reentered_heap 1 id acme 7 "{}"]
    C1_reentrant_populate [of cyclic_heap 0 id acme 0 "{0}"]
  show ?thesis by simp
qed

text \<open>
  C7. When the flag of a resolver is set and the current prefix is not a key of the table
  read, each of the three properties calls \<^verbatim>\<open>_populate\<close>, which returns without
  storing, and then raises \<^verbatim>\<open>KeyError\<close>; the heap is unchanged.
\<close>

theorem C7_accessor_raises_KeyError:
  "(populating (h self) \<and> \<not> has_key (get_path_prefix cs) (priv_reverse_dict (h self)) \<longrightarrow>
      reverse_dict normalise cs fuel h self = Some (Inl KeyError, h))
   \<and> (populating (h self) \<and> \<not> has_key (get_path_prefix cs) (priv_namespace_dict (h self)) \<longrightarrow>
      namespace_dict normalise cs fuel h self = Some (Inl KeyError, h))
   \<and> (populating (h self) \<and> \<not> has_key (get_path_prefix cs) (priv_app_dict (h self)) \<longrightarrow>
      app_dict normalise cs fuel h self = Some (Inl KeyError, h))"
  by (auto simp: reverse_dict_def reverse_dict_with_def namespace_dict_def
      namespace_dict_with_def app_dict_def app_dict_with_def populate_reentrant has_key_def
      raises_def)

theorem C7_witness:
  "populating (reentered_heap 1)
   \<and> \<not> has_key (get_path_prefix None) (priv_reverse_dict (reentered_heap 1))
   \<and> reverse_dict id None 3 reentered_heap 1 = Some (Inl KeyError, reentered_heap)
   \<and> \<not> has_key (get_path_prefix acme) (priv_namespace_dict (reentered_heap 1))
   \<and> namespace_dict id acme 3 reentered_heap 1 = Some (Inl KeyError, reentered_heap)
   \<and> \<not> has_key (get_path_prefix acme) (priv_app_dict (reentered_heap 1))
   \<and> app_dict id acme 3 reentered_heap 1 = Some (Inl KeyError, reentered_heap)"
proof -
  have "populating (reentered_heap 1)"
    "\<not> has_key (get_path_prefix None) (priv_reverse_dict (reentered_heap 1))"
    "\<not> has_key (get_path_prefix acme) (priv_namespace_dict (reentered_heap 1))"
    "\<not> has_key (get_path_prefix acme) (priv_app_dict (reentered_heap 1))"
    by (simp_all add: reentered_heap_def busy_resolver_def new_resolver_def has_key_def
        get_path_prefix_def acme_def)
  with C7_accessor_raises_KeyError [of reentered_heap 1 None id 3]
    C7_accessor_raises_KeyError [of reentered_heap 1 acme id 3]
  show ?thesis by simp
qed



text \<open>
  C2. A call that passes the guard and returns has reset the flag of its resolver. A call
  that passes the guard and raises has not: \<^verbatim>\<open>self._local.populating = False\<close> is the
  last statement of the function body and no \<^verbatim>\<open>try\<close> protects it, so the flag stays set.
  The witness is a build of resolver 0 that re-enters resolver 1: the property
  \<^verbatim>\<open>reverse_dict\<close> of resolver 1 raises \<^verbatim>\<open>KeyError\<close>, and resolver 0 is left flagged.
\<close>

theorem C2_flag_after_populate:
  "\<not> populating (h self) \<longrightarrow>
     (populate normalise cs fuel h self = Some (Inr (), h') \<longrightarrow> \<not> populating (h' self))
     \<and> (populate normalise cs fuel h self = Some (Inl e, h') \<longrightarrow> populating (h' self))"
  using populate_stores [of h self normalise cs fuel h']
    populate_raises_busy [of h self normalise cs fuel e h']
  by blast

theorem C2_witness:
  "\<not> populating (reentered_heap 0)
   \<and> outcome (populate id acme 1 reentered_heap 0) = Some (Inl KeyError)
   \<and> populating (heap_after (populate id acme 1 reentered_heap 0) 0)
   \<and> \<not> populating (site_heap 0)
   \<and> outcome (populate id acme 2 site_heap 0) = Some (Inr ())
   \<and> \<not> populating (heap_after (populate id acme 2 site_heap 0) 0)"
proof -
  have f: "\<not> populating (reentered_heap 0)" "\<not> populating (site_heap 0)"
    by (simp_all add: reentered_heap_def site_heap_def new_resolver_def)
  have e: "outcome (populate id acme 1 reentered_heap 0) = Some (Inl KeyError)" by code_simp
  then have e': "populate id acme 1 reentered_heap 0
      = Some (Inl KeyError, heap_after (populate id acme 1 reentered_heap 0))"
    by (auto simp: outcome_def heap_after_def)
  have p: "outcome (populate id acme 2 site_heap 0) = Some (Inr ())" by code_simp
  then have p': "populate id acme 2 site_heap 0
      = Some (Inr (), heap_after (populate id acme 2 site_heap 0))"
    by (auto simp: outcome_def heap_after_def)
  from C2_flag_after_populate [of reentered_heap 0 id acme 1
      "heap_after (populate id acme 1 reentered_heap 0)" KeyError] f e'
  have 1: "populating (heap_after (populate id acme 1 reentered_heap 0) 0)" by simp
  from C2_flag_after_populate [of site_heap 0 id acme 2
      "heap_after (populate id acme 2 site_heap 0)"] f p'
  have 2: "\<not> populating (heap_after (populate id acme 2 site_heap 0) 0)" by simp
  from f e p 1 2 show ?thesis by simp
qed

subsection \<open>The order of the entries\<close>

text \<open>
  C5. The loop runs over \<^verbatim>\<open>reversed(self.url_patterns)\<close> and only appends. So for two
  children of the pattern list, leaves or includes, what the one declared last adds to the
  list of a key stands before what the one declared first adds to it, in the list that
  \<^verbatim>\<open>getlist\<close> returns, which is the order in which a lookup tries the candidates. A leaf
  adds exactly its tuple, an include without namespace the merged entries of the included
  table, with an entry for every route the included graph declares under the key. When
  nothing is declared after the last one but leaves without the key, its entries are the
  first of the list.
\<close>

theorem C5_last_declared_first:
  assumes "\<not> populating (h self)"
    and "url_patterns (h self) = before @ n1 # between @ n2 # after"
    and "populate normalise cs fuel h self = Some (Inr (), h')"
  shows "\<exists>table A S2 B S1 C.
           map_of (priv_reverse_dict (h' self)) (get_path_prefix cs) = Some table
           \<and> getlist k table = A @ S2 @ B @ S1 @ C
           \<and> contributes normalise cs h n2 k S2 \<and> contributes normalise cs h n1 k S1
           \<and> (other_leaves k after \<longrightarrow> A = [])
           \<and> (good_cache cs h \<longrightarrow>
                (\<forall>pat. node_declares cs h n2 k pat \<longrightarrow> pat \<in> patterns_of S2)
              \<and> (\<forall>pat. node_declares cs h n1 k pat \<longrightarrow> pat \<in> patterns_of S1))"
proof -
  let ?pp = "get_path_prefix cs"
  let ?h0 = "h(self := (h self)\<lparr>populating := True\<rparr>)"
  let ?pop = "populate normalise cs (fuel - 1)"
  from populate_table [OF assms(1,3)] obtain lookups namespaces apps h2 where
    w: "walk ?pop normalise cs self (rev (url_patterns (h self))) ([], [], []) ?h0
          = Some (Inr (lookups, namespaces, apps), h2)"
    and t: "map_of (priv_reverse_dict (h' self)) ?pp = Some lookups"
    by blast
  from w have "walk ?pop normalise cs self
       (rev after @ n2 # rev between @ n1 # rev before) ([], [], []) ?h0
     = Some (Inr (lookups, namespaces, apps), h2)"
    by (simp add: assms(2))
  from walk_two_nodes [OF populate_keeps populate_preserves this, of k]
  obtain A S2 B S1 C where
    l0: "getlist k (fst (lookups, namespaces, apps))
           = getlist k (fst (([], [], []) :: 'a tables)) @ A @ S2 @ B @ S1 @ C"
    and c2': "contributes normalise cs ?h0 n2 k S2"
    and c1': "contributes normalise cs ?h0 n1 k S1"
    and a: "other_leaves k (rev after) \<longrightarrow> A = []"
    by (elim exE conjE)
  from l0 have l: "getlist k lookups = A @ S2 @ B @ S1 @ C" by simp
  have st: "stable ?pp h ?h0" by (rule stable_flag)
  have c2: "contributes normalise cs h n2 k S2"
    by (rule contributes_back [OF st good_cache_flag c2'])
  have c1: "contributes normalise cs h n1 k S1"
    by (rule contributes_back [OF st good_cache_flag c1'])
  have a': "other_leaves k after \<longrightarrow> A = []"
    using a by (simp add: other_leaves_def)
  have d: "good_cache cs h \<longrightarrow>
                (\<forall>pat. node_declares cs h n2 k pat \<longrightarrow> pat \<in> patterns_of S2)
              \<and> (\<forall>pat. node_declares cs h n1 k pat \<longrightarrow> pat \<in> patterns_of S1)"
    using contributes_declares [OF _ c2] contributes_declares [OF _ c1] by blast
  from t l c2 c1 a' d show ?thesis by blast
qed

theorem C5_witness:
  "\<not> populating (override_heap 0)
   \<and> url_patterns (override_heap 0) = [] @ URLPattern home_leaf # [] @ URLResolver 1 # []
   \<and> outcome (populate id acme 2 override_heap 0) = Some (Inr ())
   \<and> good_cache acme override_heap
   \<and> node_declares acme override_heap (URLResolver 1) (Name ''home'') ''shop/$''
   \<and> (\<exists>table S2 B C.
         map_of (priv_reverse_dict (heap_after (populate id acme 2 override_heap 0) 0))
           (get_path_prefix acme) = Some table
       \<and> getlist (Name ''home'') table = S2 @ B @ leaf_entry id home_leaf # C
       \<and> ''shop/$'' \<in> patterns_of S2)
   \<and> map_option (getlist (Name ''home''))
       (map_of (priv_reverse_dict (heap_after (populate id acme 2 override_heap 0) 0)) ''acme'')
       = Some [(''^shop/$'', ''shop/$'', []), (''$'', ''$'', [])]
   \<and> \<not> populating (site_heap 0)
   \<and> url_patterns (site_heap 0)
       = [] @ URLPattern user_leaf # [URLResolver 1] @ URLPattern me_leaf # []
   \<and> outcome (populate id acme 2 site_heap 0) = Some (Inr ())
   \<and> (\<exists>table B C.
         map_of (priv_reverse_dict (heap_after (populate id acme 2 site_heap 0) 0))
           (get_path_prefix acme) = Some table
       \<and> getlist (Name ''profile'') table
           = leaf_entry id me_leaf # B @ leaf_entry id user_leaf # C)
   \<and> map_option (getlist (Name ''profile''))
       (map_of (priv_reverse_dict (heap_after (populate id acme 2 site_heap 0) 0)) ''acme'')
       = Some [(''me/$'', ''me/$'', []), (''user/$'', ''user/$'', [])]"
proof -
  let ?h = "heap_after (populate id acme 2 override_heap 0)"
  let ?g = "heap_after (populate id acme 2 site_heap 0)"
  have idle: "\<not> populating (override_heap 0)"
    by (simp add: override_heap_def new_resolver_def)
  have ups: "url_patterns (override_heap 0)
      = [] @ URLPattern home_leaf # [] @ URLResolver 1 # []"
    by (simp add: override_heap_def new_resolver_def)
  have o: "outcome (populate id acme 2 override_heap 0) = Some (Inr ())" by code_simp
  then have p: "populate id acme 2 override_heap 0 = Some (Inr (), ?h)"
    by (auto simp: outcome_def heap_after_def)
  have g: "good_cache acme override_heap"
    by (simp add: good_cache_def override_heap_def new_resolver_def)
  have "declared acme override_heap 1 (Name ''home'')
          (strip_anchor (pattern (pat_regex shop_home_leaf)))"
    by (rule by_name) (simp_all add: override_heap_def new_resolver_def shop_home_leaf_def)
  then have dec: "declared acme override_heap 1 (Name ''home'') ''$''"
    by (simp add: shop_home_leaf_def)
  have nd: "node_declares acme override_heap (URLResolver 1) (Name ''home'') ''shop/$''"
    using dec
    by (auto simp: override_heap_def new_resolver_def regex_def intro!: exI [of _ "''$''"])
  have leaf: "leaf_segment id home_leaf (Name ''home'') = [leaf_entry id home_leaf]"
    by (simp add: leaf_segment_def carries_def home_leaf_def)
  have v: "map_option (getlist (Name ''home''))
       (map_of (priv_reverse_dict (?h 0)) ''acme'')
       = Some [(''^shop/$'', ''shop/$'', []), (''$'', ''$'', [])]"
    by code_simp
  from C5_last_declared_first [OF idle ups p, of "Name ''home''"]
  obtain table A S2 B S1 C where
    t: "map_of (priv_reverse_dict (?h 0)) (get_path_prefix acme) = Some table"
    and l: "getlist (Name ''home'') table = A @ S2 @ B @ S1 @ C"
    and c1: "contributes id acme override_heap (URLPattern home_leaf) (Name ''home'') S1"
    and a: "other_leaves (Name ''home'') [] \<longrightarrow> A = []"
    and d: "good_cache acme override_heap \<longrightarrow>
         (\<forall>pat. node_declares acme override_heap (URLResolver 1) (Name ''home'') pat
            \<longrightarrow> pat \<in> patterns_of S2)
       \<and> (\<forall>pat. node_declares acme override_heap (URLPattern home_leaf) (Name ''home'') pat
            \<longrightarrow> pat \<in> patterns_of S1)"
    by (elim exE conjE)
  from a have A: "A = []" by (simp add: other_leaves_def)
  from c1 leaf have S1: "S1 = [leaf_entry id home_leaf]" by simp
  from d g nd have in2: "''shop/$'' \<in> patterns_of S2" by blast
  have ex1: "\<exists>table S2 B C.
         map_of (priv_reverse_dict (?h 0)) (get_path_prefix acme) = Some table
       \<and> getlist (Name ''home'') table = S2 @ B @ leaf_entry id home_leaf # C
       \<and> ''shop/$'' \<in> patterns_of S2"
    using t l in2 unfolding A S1
    by (intro exI [of _ table] exI [of _ S2] exI [of _ B] exI [of _ C]) simp
  have idle2: "\<not> populating (site_heap 0)" by (simp add: site_heap_def new_resolver_def)
  have ups2: "url_patterns (site_heap 0)
       = [] @ URLPattern user_leaf # [URLResolver 1] @ URLPattern me_leaf # []"
    by (simp add: site_heap_def new_resolver_def)
  have o2: "outcome (populate id acme 2 site_heap 0) = Some (Inr ())" by code_simp
  then have p2: "populate id acme 2 site_heap 0 = Some (Inr (), ?g)"
    by (auto simp: outcome_def heap_after_def)
  have v2: "map_option (getlist (Name ''profile''))
       (map_of (priv_reverse_dict (?g 0)) ''acme'')
       = Some [(''me/$'', ''me/$'', []), (''user/$'', ''user/$'', [])]"
    by code_simp
  have leaves: "leaf_segment id me_leaf (Name ''profile'') = [leaf_entry id me_leaf]"
    "leaf_segment id user_leaf (Name ''profile'') = [leaf_entry id user_leaf]"
    by (simp_all add: leaf_segment_def carries_def me_leaf_def user_leaf_def)
  from C5_last_declared_first [OF idle2 ups2 p2, of "Name ''profile''"]
  obtain table' A' S2' B' S1' C' where
    t': "map_of (priv_reverse_dict (?g 0)) (get_path_prefix acme) = Some table'"
    and l': "getlist (Name ''profile'') table' = A' @ S2' @ B' @ S1' @ C'"
    and c2': "contributes id acme site_heap (URLPattern me_leaf) (Name ''profile'') S2'"
    and c1': "contributes id acme site_heap (URLPattern user_leaf) (Name ''profile'') S1'"
    and a': "other_leaves (Name ''profile'') [] \<longrightarrow> A' = []"
    by (elim exE conjE)
  from a' have A': "A' = []" by (simp add: other_leaves_def)
  from c2' c1' leaves have S': "S2' = [leaf_entry id me_leaf]" "S1' = [leaf_entry id user_leaf]"
    by simp_all
  have ex2: "\<exists>table B C.
         map_of (priv_reverse_dict (?g 0)) (get_path_prefix acme) = Some table
       \<and> getlist (Name ''profile'') table
           = leaf_entry id me_leaf # B @ leaf_entry id user_leaf # C"
    using t' l' unfolding A' S'
    by (intro exI [of _ table'] exI [of _ B'] exI [of _ C']) simp
  show ?thesis
    by (intro conjI idle ups o g nd ex1 v idle2 ups2 o2 ex2 v2)
qed

subsection \<open>The tables of two prefixes\<close>

text \<open>
  C4, amended. The tuple stored for a leaf holds the leaf's own pattern with the leading
  anchor stripped, the same under every tenant: the prefix is the key under which the
  table is stored, and it enters a pattern string only as the regex
  \<^verbatim>\<open>'^P/'\<close> of a \<^verbatim>\<open>SiteRegexURLResolver\<close> that a parent merges (the include rule of
  \<open>declared\<close>). For two distinct prefixes built one after the other from the same graph,
  each table has an entry for every declared name and handler, the leaves of the resolver
  with exactly the tuple above, and building the second alters no table stored under
  another prefix, in any resolver.
\<close>

theorem C4_tables_per_prefix:
  assumes "good_cache cs1 h" and "good_cache cs2 h" and "\<not> populating (h self)"
    and "get_path_prefix cs1 \<noteq> get_path_prefix cs2"
    and "populate normalise cs1 fuel1 h self = Some (Inr (), h1)"
    and "populate normalise cs2 fuel2 h1 self = Some (Inr (), h2)"
  shows "(\<exists>t1 t2.
       map_of (priv_reverse_dict (h1 self)) (get_path_prefix cs1) = Some t1
     \<and> map_of (priv_reverse_dict (h2 self)) (get_path_prefix cs1) = Some t1
     \<and> map_of (priv_reverse_dict (h2 self)) (get_path_prefix cs2) = Some t2
     \<and> covers cs1 h self t1 \<and> covers cs2 h self t2
     \<and> (\<forall>p. URLPattern p \<in> set (url_patterns (h self)) \<longrightarrow>
           leaf_entry normalise p \<in> set (getlist (Callback (pat_callback p)) t1)
         \<and> leaf_entry normalise p \<in> set (getlist (Callback (pat_callback p)) t2)
         \<and> (\<forall>n. pat_name p = Some n \<longrightarrow>
               leaf_entry normalise p \<in> set (getlist (Name n) t1)
             \<and> leaf_entry normalise p \<in> set (getlist (Name n) t2))))
   \<and> (\<forall>r other. other \<noteq> get_path_prefix cs2 \<longrightarrow>
         map_of (priv_reverse_dict (h2 r)) other = map_of (priv_reverse_dict (h1 r)) other
       \<and> map_of (priv_namespace_dict (h2 r)) other = map_of (priv_namespace_dict (h1 r)) other
       \<and> map_of (priv_app_dict (h2 r)) other = map_of (priv_app_dict (h1 r)) other)"
proof -
  let ?P1 = "get_path_prefix cs1" and ?P2 = "get_path_prefix cs2"
  have st1: "stable ?P1 h h1" by (rule populate_stable [OF assms(5)])
  have st2: "stable ?P2 h1 h2" by (rule populate_stable [OF assms(6)])
  have idle1: "\<not> populating (h1 self)" using populate_stores [OF assms(3,5)] by simp
  have g2: "good_cache cs2 h1"
    by (rule good_cache_same_tables [OF assms(2) st1]) (use st1 assms(4) in \<open>simp add: stable_def\<close>)
  from populate_covers [OF assms(1,3,5)] obtain t1 where
    t1: "map_of (priv_reverse_dict (h1 self)) ?P1 = Some t1" and c1: "covers cs1 h self t1"
    by blast
  from populate_covers [OF g2 idle1 assms(6)] obtain t2 where
    t2: "map_of (priv_reverse_dict (h2 self)) ?P2 = Some t2" and c2': "covers cs2 h1 self t2"
    by blast
  from c2' have c2: "covers cs2 h self t2" by (simp add: covers_stable [OF st1])
  from st2 assms(4) t1 have t1': "map_of (priv_reverse_dict (h2 self)) ?P1 = Some t1"
    by (simp add: stable_def)
  have ups: "url_patterns (h1 self) = url_patterns (h self)" using st1 by (simp add: stable_def)
  have leaves: "\<forall>p. URLPattern p \<in> set (url_patterns (h self)) \<longrightarrow>
           leaf_entry normalise p \<in> set (getlist (Callback (pat_callback p)) t1)
         \<and> leaf_entry normalise p \<in> set (getlist (Callback (pat_callback p)) t2)
         \<and> (\<forall>n. pat_name p = Some n \<longrightarrow>
               leaf_entry normalise p \<in> set (getlist (Name n) t1)
             \<and> leaf_entry normalise p \<in> set (getlist (Name n) t2))"
    using populate_leaf_entries [OF assms(3,5) t1] populate_leaf_entries [OF idle1 assms(6) t2]
    by (simp add: ups)
  have frame: "\<forall>r other. other \<noteq> ?P2 \<longrightarrow>
         map_of (priv_reverse_dict (h2 r)) other = map_of (priv_reverse_dict (h1 r)) other
       \<and> map_of (priv_namespace_dict (h2 r)) other = map_of (priv_namespace_dict (h1 r)) other
       \<and> map_of (priv_app_dict (h2 r)) other = map_of (priv_app_dict (h1 r)) other"
    using st2 by (simp add: stable_def)
  from t1 t1' t2 c1 c2 leaves frame show ?thesis by blast
qed

text \<open>
  C4, as stated, fails: built under the prefix \<^verbatim>\<open>"acme"\<close>, the table of the site resolver
  stores the leaf \<^verbatim>\<open>'^user/$'\<close> as \<^verbatim>\<open>'user/$'\<close>, without the prefix.
\<close>

theorem C4_counterexample:
  "outcome (populate id acme 2 site_heap 0) = Some (Inr ())
   \<and> map_of (priv_reverse_dict (heap_after (populate id acme 2 site_heap 0) 0)) ''acme''
     = Some [(Callback ''views.me'', [(''me/$'', ''me/$'', [])]),
             (Name ''profile'', [(''me/$'', ''me/$'', []), (''user/$'', ''user/$'', [])]),
             (Callback ''views.items'', [(''^api/items/$'', ''api/items/$'', [])]),
             (Name ''items'', [(''^api/items/$'', ''api/items/$'', [])]),
             (Callback ''views.profile'', [(''user/$'', ''user/$'', [])])]
   \<and> take 4 ''user/$'' \<noteq> ''acme''"
  by code_simp

theorem C4_witness:
  "good_cache acme site_heap \<and> good_cache beta site_heap \<and> \<not> populating (site_heap 0)
   \<and> get_path_prefix acme \<noteq> get_path_prefix beta
   \<and> outcome (populate id acme 2 site_heap 0) = Some (Inr ())
   \<and> outcome (populate id beta 2 (heap_after (populate id acme 2 site_heap 0)) 0) = Some (Inr ())
   \<and> (\<exists>t1 t2.
         map_of (priv_reverse_dict (heap_after (populate id acme 2 site_heap 0) 0)) ''acme''
           = Some t1
       \<and> map_of (priv_reverse_dict
            (heap_after (populate id beta 2 (heap_after (populate id acme 2 site_heap 0)) 0) 0))
            ''acme'' = Some t1
       \<and> map_of (priv_reverse_dict
            (heap_after (populate id beta 2 (heap_after (populate id acme 2 site_heap 0)) 0) 0))
            ''beta'' = Some t2
       \<and> covers acme site_heap 0 t1 \<and> covers beta site_heap 0 t2
       \<and> leaf_entry id user_leaf \<in> set (getlist (Name ''profile'') t1)
       \<and> leaf_entry id user_leaf \<in> set (getlist (Name ''profile'') t2))
   \<and> leaf_entry id user_leaf = (''user/$'', ''user/$'', [])
   \<and> map_of (priv_reverse_dict
        (heap_after (populate id beta 2 (heap_after (populate id acme 2 site_heap 0)) 0) 1))
        ''acme''
     = map_of (priv_reverse_dict (heap_after (populate id acme 2 site_heap 0) 1)) ''acme''"
proof -
  let ?h1 = "heap_after (populate id acme 2 site_heap 0)"
  let ?h2 = "heap_after (populate id beta 2 ?h1 0)"
  have g: "good_cache acme site_heap" "good_cache beta site_heap"
    by (simp_all add: good_cache_def site_heap_def new_resolver_def)
  have idle: "\<not> populating (site_heap 0)" by (simp add: site_heap_def new_resolver_def)
  have pp: "get_path_prefix acme = ''acme''" "get_path_prefix beta = ''beta''"
    by (simp_all add: get_path_prefix_def acme_def beta_def)
  have ne: "get_path_prefix acme \<noteq> get_path_prefix beta" by (simp add: pp)
  have o1: "outcome (populate id acme 2 site_heap 0) = Some (Inr ())" by code_simp
  then have p1: "populate id acme 2 site_heap 0 = Some (Inr (), ?h1)"
    by (auto simp: outcome_def heap_after_def)
  have o2: "outcome (populate id beta 2 ?h1 0) = Some (Inr ())"
    by (simp add: eval_defs numeral_2_eq_2)
  then have p2: "populate id beta 2 ?h1 0 = Some (Inr (), ?h2)"
    by (auto simp: outcome_def heap_after_def)
  have leaf: "leaf_entry id user_leaf = (''user/$'', ''user/$'', [])"
    by (simp add: leaf_entry_def user_leaf_def)
  have member: "URLPattern user_leaf \<in> set (url_patterns (site_heap 0))"
    by (simp add: site_heap_def new_resolver_def)
  have nm: "pat_name user_leaf = Some ''profile''" by (simp add: user_leaf_def)
  note main = C4_tables_per_prefix [OF g idle ne p1 p2]
  from main [THEN conjunct1] obtain t1 t2 where
    t: "map_of (priv_reverse_dict (?h1 0)) (get_path_prefix acme) = Some t1"
      "map_of (priv_reverse_dict (?h2 0)) (get_path_prefix acme) = Some t1"
      "map_of (priv_reverse_dict (?h2 0)) (get_path_prefix beta) = Some t2"
      "covers acme site_heap 0 t1" "covers beta site_heap 0 t2"
    and leaves: "\<forall>p. URLPattern p \<in> set (url_patterns (site_heap 0)) \<longrightarrow>
           leaf_entry id p \<in> set (getlist (Callback (pat_callback p)) t1)
         \<and> leaf_entry id p \<in> set (getlist (Callback (pat_callback p)) t2)
         \<and> (\<forall>n. pat_name p = Some n \<longrightarrow>
               leaf_entry id p \<in> set (getlist (Name n) t1)
             \<and> leaf_entry id p \<in> set (getlist (Name n) t2))"
    by (elim exE conjE)
  from leaves [rule_format, OF member] nm have
    in_both: "leaf_entry id user_leaf \<in> set (getlist (Name ''profile'') t1)"
      "leaf_entry id user_leaf \<in> set (getlist (Name ''profile'') t2)"
    by simp_all
  have ex: "\<exists>t1 t2.
         map_of (priv_reverse_dict (?h1 0)) ''acme'' = Some t1
       \<and> map_of (priv_reverse_dict (?h2 0)) ''acme'' = Some t1
       \<and> map_of (priv_reverse_dict (?h2 0)) ''beta'' = Some t2
       \<and> covers acme site_heap 0 t1 \<and> covers beta site_heap 0 t2
       \<and> leaf_entry id user_leaf \<in> set (getlist (Name ''profile'') t1)
       \<and> leaf_entry id user_leaf \<in> set (getlist (Name ''profile'') t2)"
    using t in_both unfolding pp by (intro exI [of _ t1] exI [of _ t2] conjI)
  have "''acme'' \<noteq> get_path_prefix beta" by (simp add: pp)
  from main [THEN conjunct2, rule_format, of "''acme''" 1, OF this] have
    frame: "map_of (priv_reverse_dict (?h2 1)) ''acme'' = map_of (priv_reverse_dict (?h1 1)) ''acme''"
    by (rule conjunct1)
  show ?thesis
    by (intro conjI g idle ne o1 o2 ex leaf frame)
qed

end
